theory Spec2Isabelle
  imports Main
begin

section \<open>Text: Python strings and the string methods the script calls\<close>

text \<open>
  A Python \<open>str\<close> is a sequence of code points. The model is a \<open>string\<close>: one
  \<open>char\<close> per code point, for the code points below 256. The character classes
  below are Python's on that range.
\<close>

type_synonym path = string

definition nl :: char where
  "nl = CHR 0x0A"

text \<open>\<open>str.isspace\<close> of one character, which is also the class \<open>\s\<close> of \<open>re\<close>.\<close>

definition isspace :: "char \<Rightarrow> bool" where
  "isspace c = (let n = (of_char c :: nat)
                in (9 \<le> n \<and> n \<le> 13) \<or> (28 \<le> n \<and> n \<le> 32) \<or> n = 133 \<or> n = 160)"

text \<open>The class \<open>\w\<close> of \<open>re\<close> on a \<open>str\<close> pattern: alphanumeric or underscore.\<close>

definition isword :: "char \<Rightarrow> bool" where
  "isword c = (let n = (of_char c :: nat)
               in (48 \<le> n \<and> n \<le> 57) \<or> (65 \<le> n \<and> n \<le> 90) \<or> n = 95 \<or> (97 \<le> n \<and> n \<le> 122)
                  \<or> n = 170 \<or> n = 178 \<or> n = 179 \<or> n = 181 \<or> n = 185 \<or> n = 186
                  \<or> (188 \<le> n \<and> n \<le> 190) \<or> (192 \<le> n \<and> n \<le> 214)
                  \<or> (216 \<le> n \<and> n \<le> 246) \<or> (248 \<le> n \<and> n \<le> 255))"

text \<open>Case folding of \<open>re.IGNORECASE\<close>, for the characters the patterns name (all ASCII).\<close>

definition lower :: "char \<Rightarrow> char" where
  "lower c =
     (case map_of (zip ''ABCDEFGHIJKLMNOPQRSTUVWXYZ'' ''abcdefghijklmnopqrstuvwxyz'') c of
        Some l \<Rightarrow> l
      | None \<Rightarrow> c)"

text \<open>\<open>s.strip()\<close>\<close>

definition strip :: "string \<Rightarrow> string" where
  "strip s = rev (dropWhile isspace (rev (dropWhile isspace s)))"

text \<open>\<open>s.startswith(p)\<close>\<close>

definition startswith :: "string \<Rightarrow> string \<Rightarrow> bool" where
  "startswith s p = (take (length p) s = p)"

text \<open>
  \<open>s.split('\n')\<close>: one more piece than there are newlines. The result is never
  empty, so the second branch of the \<open>case\<close> is never taken.
\<close>

fun split_nl :: "string \<Rightarrow> string list" where
  "split_nl [] = [[]]"
| "split_nl (c # cs) =
     (if c = nl then [] # split_nl cs
      else (case split_nl cs of
              l # ls \<Rightarrow> (c # l) # ls
            | [] \<Rightarrow> [[c]]))"

text \<open>\<open>'\n'.join(ls)\<close>\<close>

fun join_nl :: "string list \<Rightarrow> string" where
  "join_nl [] = []"
| "join_nl [l] = l"
| "join_nl (l # m # ls) = l @ nl # join_nl (m # ls)"

text \<open>\<open>str(n)\<close> of a non-negative integer: its decimal digits.\<close>

definition digit :: "nat \<Rightarrow> char" where
  "digit d = ''0123456789'' ! d"

fun str :: "nat \<Rightarrow> string" where
  "str n = (if n < 10 then [digit n] else str (n div 10) @ [digit (n mod 10)])"

declare str.simps [simp del]

text \<open>\<open>os.path.join(a, b)\<close> of \<open>posixpath\<close>, for two components.\<close>

definition path_join :: "path \<Rightarrow> path \<Rightarrow> path" where
  "path_join a b =
     (if startswith b ''/'' then b
      else if a = [] \<or> last a = CHR ''/'' then a @ b
      else a @ ''/'' @ b)"

section \<open>Regular expressions: the fragment of \<open>re\<close> the script uses\<close>

text \<open>
  The script's five patterns are sequences of single characters, character classes,
  greedy and lazy repetitions of a class, and the anchors \<open>^\<close> and \<open>$\<close>, always
  under \<open>re.MULTILINE\<close>. \<open>c+\<close> is \<open>c\<close> followed by \<open>c*\<close>.
\<close>

datatype cls =
    Lit char      \<comment> \<open>a literal character\<close>
  | ILit char     \<comment> \<open>a literal character under \<open>re.IGNORECASE\<close>\<close>
  | Space         \<comment> \<open>\<open>\s\<close>\<close>
  | Word          \<comment> \<open>\<open>\w\<close>\<close>
  | Any           \<comment> \<open>\<open>.\<close> under \<open>re.DOTALL\<close>\<close>

fun cls_ok :: "cls \<Rightarrow> char \<Rightarrow> bool" where
  "cls_ok (Lit a) c = (c = a)"
| "cls_ok (ILit a) c = (lower c = lower a)"
| "cls_ok Space c = isspace c"
| "cls_ok Word c = isword c"
| "cls_ok Any c = True"

datatype rx =
    Chr cls        \<comment> \<open>one character of the class\<close>
  | Star cls       \<comment> \<open>\<open>c*\<close>, greedy: the longest run is tried first\<close>
  | LazyStar cls   \<comment> \<open>\<open>c*?\<close>, lazy: the shortest run is tried first\<close>
  | Bol            \<comment> \<open>\<open>^\<close> under \<open>re.MULTILINE\<close>\<close>
  | Eol            \<comment> \<open>\<open>$\<close> under \<open>re.MULTILINE\<close>\<close>

definition lit :: "string \<Rightarrow> rx list" where
  "lit s = map (\<lambda>c. Chr (Lit c)) s"

definition ilit :: "string \<Rightarrow> rx list" where
  "ilit s = map (\<lambda>c. Chr (ILit c)) s"

definition plus :: "cls \<Rightarrow> rx list" where
  "plus c = [Chr c, Star c]"

text \<open>
  The backtracking matcher. \<open>rx_try p bol s\<close> is the list of the prefixes of \<open>s\<close>
  that the pattern \<open>p\<close> can match when the text at the current position is \<open>s\<close>, in
  the order in which the engine tries them; \<open>bol\<close> says that the current position is
  the start of the text or follows a newline. The match the engine reports is the first
  of the list.
\<close>

fun rx_try :: "rx list \<Rightarrow> bool \<Rightarrow> string \<Rightarrow> string list" where
  "rx_try [] bol s = [[]]"
| "rx_try (Chr k # p) bol [] = []"
| "rx_try (Chr k # p) bol (c # cs) =
     (if cls_ok k c then map ((#) c) (rx_try p (c = nl) cs) else [])"
| "rx_try (Bol # p) bol s = (if bol then rx_try p bol s else [])"
| "rx_try (Eol # p) bol [] = rx_try p bol []"
| "rx_try (Eol # p) bol (c # cs) = (if c = nl then rx_try p bol (c # cs) else [])"
| "rx_try (Star k # p) bol [] = rx_try p bol []"
| "rx_try (Star k # p) bol (c # cs) =
     (if cls_ok k c then map ((#) c) (rx_try (Star k # p) (c = nl) cs) else [])
     @ rx_try p bol (c # cs)"
| "rx_try (LazyStar k # p) bol [] = rx_try p bol []"
| "rx_try (LazyStar k # p) bol (c # cs) =
     rx_try p bol (c # cs)
     @ (if cls_ok k c then map ((#) c) (rx_try (LazyStar k # p) (c = nl) cs) else [])"

text \<open>\<open>re.match(pattern, s, flags)\<close> as a truth value: a match at the start of \<open>s\<close>.\<close>

definition re_match :: "rx list \<Rightarrow> string \<Rightarrow> bool" where
  "re_match p s = (rx_try p True s \<noteq> [])"

text \<open>The position after the text \<open>t\<close> starts a line.\<close>

definition bol_after :: "bool \<Rightarrow> string \<Rightarrow> bool" where
  "bol_after bol t = (if t = [] then bol else last t = nl)"

text \<open>A match object: where the match starts and the text \<open>group(0)\<close>.\<close>

record rmatch =
  m_start :: nat
  m_group :: string

definition m_end :: "rmatch \<Rightarrow> nat" where
  "m_end m = m_start m + length (m_group m)"

lemma rx_try_length: "t \<in> set (rx_try p bol s) \<Longrightarrow> length t \<le> length s"
  by (induction p bol s arbitrary: t rule: rx_try.induct) (auto split: if_splits)

lemma filter_first: "filter P xs = t # ts \<Longrightarrow> t \<in> set xs \<and> P t"
proof -
  assume h: "filter P xs = t # ts"
  have "t \<in> set (filter P xs)" by (simp add: h)
  then show ?thesis by simp
qed

lemma rx_try_first:
  "filter P (rx_try p bol s) = t # ts \<Longrightarrow> length t \<le> length s \<and> P t"
proof -
  assume h: "filter P (rx_try p bol s) = t # ts"
  from filter_first [OF h] have "t \<in> set (rx_try p bol s)" and "P t"
    by simp_all
  then show ?thesis
    by (simp add: rx_try_length)
qed

text \<open>
  \<open>re.finditer(pattern, s, flags)\<close>: the matches from left to right. The search
  tries each position in turn and takes the first alternative of the matcher there; the
  next search starts where the match ended. \<open>adv\<close> is the engine's rule after an
  empty match: at the position where that match ended, an empty match is refused.
\<close>

function finditer :: "rx list \<Rightarrow> bool \<Rightarrow> nat \<Rightarrow> bool \<Rightarrow> string \<Rightarrow> rmatch list" where
  "finditer p adv pos bol s =
     (case filter (\<lambda>t. \<not> adv \<or> t \<noteq> []) (rx_try p bol s) of
        t # _ \<Rightarrow>
          \<lparr>m_start = pos, m_group = t\<rparr>
            # finditer p (t = []) (pos + length t) (bol_after bol t) (drop (length t) s)
      | [] \<Rightarrow>
          (case s of
             [] \<Rightarrow> []
           | c # cs \<Rightarrow> finditer p False (pos + 1) (c = nl) cs))"
  by pat_completeness auto
termination
proof (relation "measure (\<lambda>(p, adv, pos, bol, s). 2 * length s + (if adv then 0 else 1))",
    goal_cases)
  case 1
  show ?case by simp
next
  case (2 p adv pos bol s c cs)
  then show ?case by simp
next
  case (3 p adv pos bol s t ts)
  from rx_try_first [OF 3] have le: "length t \<le> length s" and adv: "\<not> adv \<or> t \<noteq> []"
    by simp_all
  show ?case
  proof (cases "t = []")
    case True
    with adv show ?thesis by simp
  next
    case False
    then have "0 < length t" by simp
    with le have "2 * (length s - length t) + 1 < 2 * length s" by arith
    with False show ?thesis by simp
  qed
qed

declare finditer.simps [simp del]

section \<open>The script\<close>

subsection \<open>\<open>is_placeholder_snippet\<close>\<close>

text \<open>
  The four patterns, all used under \<open>re.IGNORECASE | re.MULTILINE\<close>:
  \<^verbatim>\<open>^\s*//\s*Your\s+code\s+here\s*$\<close>, \<^verbatim>\<open>^\s*//\s*\.\.\.\s*$\<close>,
  \<^verbatim>\<open>^\s*#\s*\.\.\.\s*$\<close> and \<^verbatim>\<open>^\s*\.\.\.\s*$\<close>.
\<close>

definition placeholder_patterns :: "rx list list" where
  "placeholder_patterns =
     [ [Bol, Star Space] @ ilit ''//'' @ [Star Space] @ ilit ''Your'' @ plus Space
         @ ilit ''code'' @ plus Space @ ilit ''here'' @ [Star Space, Eol],
       [Bol, Star Space] @ ilit ''//'' @ [Star Space] @ ilit ''...'' @ [Star Space, Eol],
       [Bol, Star Space] @ ilit ''#'' @ [Star Space] @ ilit ''...'' @ [Star Space, Eol],
       [Bol, Star Space] @ ilit ''...'' @ [Star Space, Eol] ]"

definition is_placeholder_snippet :: "string \<Rightarrow> bool" where
  "is_placeholder_snippet code =
     (let code_stripped = strip code
      in if list_ex (\<lambda>pattern. re_match pattern code_stripped) placeholder_patterns then True
         else if length code_stripped < 10 then True
         else False)"

subsection \<open>The scan of the lines\<close>

record scan_state =
  in_rust_block :: bool
  current_snippet :: "string list"
  snippets :: "string list"

definition scan_init :: scan_state where
  "scan_init = \<lparr>in_rust_block = False, current_snippet = [], snippets = []\<rparr>"

definition fence_open :: "string \<Rightarrow> bool" where
  "fence_open line = startswith (strip line) ''```rust''"

definition fence_close :: "string \<Rightarrow> bool" where
  "fence_close line = (strip line = ''```'')"

text \<open>One turn of the loop \<open>for line in lines\<close>.\<close>

definition scan_line :: "scan_state \<Rightarrow> string \<Rightarrow> scan_state" where
  "scan_line st line =
     (if fence_open line then
        st\<lparr>in_rust_block := True, current_snippet := []\<rparr>
      else if fence_close line \<and> in_rust_block st then
        (let st1 = st\<lparr>in_rust_block := False\<rparr>;
             st2 = (if current_snippet st1 \<noteq> [] then
                      (let snippet_code = strip (join_nl (current_snippet st1))
                       in if snippet_code \<noteq> [] \<and> \<not> is_placeholder_snippet snippet_code
                          then st1\<lparr>snippets := snippets st1 @ [snippet_code]\<rparr>
                          else st1)
                    else st1)
         in st2\<lparr>current_snippet := []\<rparr>)
      else if in_rust_block st then
        st\<lparr>current_snippet := current_snippet st @ [line]\<rparr>
      else st)"

definition scan_lines :: "scan_state \<Rightarrow> string list \<Rightarrow> scan_state" where
  "scan_lines st ls = foldl scan_line st ls"

text \<open>The list \<open>snippets\<close> after the first loop, for the text \<open>content\<close>.\<close>

definition collect_snippets :: "string \<Rightarrow> string list" where
  "collect_snippets content = snippets (scan_lines scan_init (split_nl content))"

subsection \<open>The split into struct definitions\<close>

text \<open>
  The pattern \<^verbatim>\<open>^#\[derive.*?\]\s*\nstruct\s+\w+\s*\{.*?\}\<close> under
  \<open>re.MULTILINE | re.DOTALL\<close>, in two parts: up to the opening brace, and the body
  with the closing brace.
\<close>

definition struct_head :: "rx list" where
  "struct_head =
     [Bol] @ lit ''#[derive'' @ [LazyStar Any] @ lit '']'' @ [Star Space, Chr (Lit nl)]
       @ lit ''struct'' @ plus Space @ plus Word @ [Star Space] @ lit ''{''"

definition struct_body :: "rx list" where
  "struct_body = [LazyStar Any] @ lit ''}''"

definition struct_pattern :: "rx list" where
  "struct_pattern = struct_head @ struct_body"

definition struct_matches :: "string \<Rightarrow> rmatch list" where
  "struct_matches snippet = finditer struct_pattern False 0 True snippet"

subsection \<open>Files and streams\<close>

text \<open>
  The world the script runs in. \<open>read_text w p\<close> is what
  \<open>open(p, 'r', encoding='utf-8').read()\<close> gives: the text, or the message of the
  exception raised (no such file, no permission, not UTF-8). \<open>write_error w p\<close> is the
  message of the exception that writing the file \<open>p\<close> raises, if it raises. \<open>written\<close>
  lists the files written, each with the whole text written to it, oldest first; the
  streams are lists of the lines printed. \<open>stdout_error w\<close> is the message of the
  exception that \<open>print\<close> to the standard output raises, if it raises (the text cannot
  be encoded, or the stream is unbuffered and cannot be written). \<open>flush_error w\<close> says
  that the interpreter cannot flush the standard streams when the process ends (a full
  device, a closed pipe): lines printed to a buffered stream are then lost without an
  exception in the script.
\<close>

record world =
  read_text :: "path \<Rightarrow> string + string"
  write_error :: "path \<Rightarrow> string option"
  written :: "(path \<times> string) list"
  stdout :: "string list"
  stderr :: "string list"
  stdout_error :: "string option"
  flush_error :: bool

text \<open>\<open>print(line)\<close>: the exception, or the world after.\<close>

definition print_stdout :: "string \<Rightarrow> world \<Rightarrow> string + world" where
  "print_stdout line w =
     (case stdout_error w of
        Some e \<Rightarrow> Inl e
      | None \<Rightarrow> Inr (w\<lparr>stdout := stdout w @ [line]\<rparr>))"

text \<open>
  \<open>sys.exit(status)\<close>: the exit code of the process. The interpreter flushes the
  standard streams before it ends; when that fails the exit code is 120, whatever the
  status.
\<close>

definition sys_exit :: "int \<Rightarrow> world \<Rightarrow> int \<times> world" where
  "sys_exit status w = (if flush_error w then 120 else status, w)"

text \<open>\<open>with open(p, 'w') as f: f.write(text)\<close>: the exception, or the world after.\<close>

definition write_file :: "path \<Rightarrow> string \<Rightarrow> world \<Rightarrow> string + world" where
  "write_file p text w =
     (case write_error w p of
        Some e \<Rightarrow> Inl e
      | None \<Rightarrow> Inr (w\<lparr>written := written w @ [(p, text)]\<rparr>))"

definition snippet_file :: "path \<Rightarrow> string \<Rightarrow> nat \<Rightarrow> path" where
  "snippet_file temp_dir safe_name n =
     path_join temp_dir (safe_name @ ''_snippet_'' @ str n @ ''.rs'')"

definition count_file :: "path \<Rightarrow> string \<Rightarrow> path" where
  "count_file temp_dir safe_name = path_join temp_dir (''count_'' @ safe_name @ ''.txt'')"

subsection \<open>The loops that write the files\<close>

text \<open>
  Each loop carries \<open>snippet_count\<close> and the world. An exception leaves the loop with
  its message and the world as it is then: what was written stays written.
\<close>

type_synonym 'a outcome = "(string \<times> world) + ('a \<times> world)"

text \<open>The inner loop \<open>for j, match in enumerate(struct_matches)\<close>.\<close>

fun write_structs :: "path \<Rightarrow> string \<Rightarrow> rmatch list \<Rightarrow> nat \<Rightarrow> world \<Rightarrow> nat outcome" where
  "write_structs temp_dir safe_name [] snippet_count w = Inr (snippet_count, w)"
| "write_structs temp_dir safe_name (m # ms) snippet_count w =
     (let snippet_count = snippet_count + 1;
          struct_code = m_group m
      in case write_file (snippet_file temp_dir safe_name snippet_count) struct_code w of
           Inl e \<Rightarrow> Inl (e, w)
         | Inr w' \<Rightarrow> write_structs temp_dir safe_name ms snippet_count w')"

text \<open>The body of the loop \<open>for i, snippet in enumerate(snippets, 1)\<close>.\<close>

definition write_snippet :: "path \<Rightarrow> string \<Rightarrow> string \<Rightarrow> nat \<Rightarrow> world \<Rightarrow> nat outcome" where
  "write_snippet temp_dir safe_name snippet snippet_count w =
     (let ms = struct_matches snippet
      in if length ms > 1 then write_structs temp_dir safe_name ms snippet_count w
         else
           (let snippet_count = snippet_count + 1
            in case write_file (snippet_file temp_dir safe_name snippet_count) snippet w of
                 Inl e \<Rightarrow> Inl (e, w)
               | Inr w' \<Rightarrow> Inr (snippet_count, w')))"

fun write_snippets :: "path \<Rightarrow> string \<Rightarrow> string list \<Rightarrow> nat \<Rightarrow> world \<Rightarrow> nat outcome" where
  "write_snippets temp_dir safe_name [] snippet_count w = Inr (snippet_count, w)"
| "write_snippets temp_dir safe_name (snippet # rest) snippet_count w =
     (case write_snippet temp_dir safe_name snippet snippet_count w of
        Inl ew \<Rightarrow> Inl ew
      | Inr (snippet_count', w') \<Rightarrow> write_snippets temp_dir safe_name rest snippet_count' w')"

subsection \<open>\<open>extract_rust_snippets\<close> and the entry point\<close>

text \<open>
  The \<open>except Exception\<close> branch: the message on the error stream, result 1. Both
  standard streams are taken to be open. Printing to the error stream is taken not to
  raise: the error stream takes any text, and a device that cannot be written shows when
  the streams are flushed (\<open>flush_error\<close>).
\<close>

definition report_error :: "path \<Rightarrow> string \<Rightarrow> world \<Rightarrow> int \<times> world" where
  "report_error file_path e w =
     (1, w\<lparr>stderr := stderr w @ [''Error processing '' @ file_path @ '': '' @ e]\<rparr>)"

definition extract_rust_snippets :: "path \<Rightarrow> path \<Rightarrow> string \<Rightarrow> world \<Rightarrow> int \<times> world" where
  "extract_rust_snippets file_path temp_dir safe_name w =
     (case read_text w file_path of
        Inl e \<Rightarrow> report_error file_path e w
      | Inr content \<Rightarrow>
          (case write_snippets temp_dir safe_name (collect_snippets content) 0 w of
             Inl (e, w1) \<Rightarrow> report_error file_path e w1
           | Inr (snippet_count, w1) \<Rightarrow>
               (case write_file (count_file temp_dir safe_name) (str snippet_count) w1 of
                  Inl e \<Rightarrow> report_error file_path e w1
                | Inr w2 \<Rightarrow>
                    (case print_stdout
                            (''Extracted '' @ str snippet_count @ '' snippets from '' @ file_path)
                            w2 of
                       Inl e \<Rightarrow> report_error file_path e w2
                     | Inr w3 \<Rightarrow> (0, w3)))))"

definition usage :: string where
  "usage = ''Usage: extract_rust_snippets.py <file_path> <temp_dir> <safe_name>''"

text \<open>
  The block under \<open>__main__\<close>: \<open>argv\<close> is \<open>sys.argv\<close>, the result is the exit
  code of the process.
\<close>

definition main :: "string list \<Rightarrow> world \<Rightarrow> int \<times> world" where
  "main argv w =
     (if length argv \<noteq> 4 then sys_exit 1 (w\<lparr>stderr := stderr w @ [usage]\<rparr>)
      else (case extract_rust_snippets (argv ! 1) (argv ! 2) (argv ! 3) w of
              (status, w') \<Rightarrow> sys_exit status w'))"

section \<open>What a run writes\<close>

text \<open>
  The output units of one snippet, as the body of the second loop chooses them, and of
  the list of snippets; \<open>unit_files\<close> pairs the units with the files they go to when
  \<open>snippet_count\<close> is \<open>n\<close> before the first of them.
\<close>

definition units_of :: "string \<Rightarrow> string list" where
  "units_of snippet =
     (let ms = struct_matches snippet
      in if length ms > 1 then map m_group ms else [snippet])"

definition output_units :: "string list \<Rightarrow> string list" where
  "output_units snips = concat (map units_of snips)"

fun unit_files :: "path \<Rightarrow> string \<Rightarrow> nat \<Rightarrow> string list \<Rightarrow> (path \<times> string) list" where
  "unit_files temp_dir safe_name n [] = []"
| "unit_files temp_dir safe_name n (u # us) =
     (snippet_file temp_dir safe_name (n + 1), u) # unit_files temp_dir safe_name (n + 1) us"

definition writable :: "world \<Rightarrow> path list \<Rightarrow> bool" where
  "writable w ps = list_all (\<lambda>p. write_error w p = None) ps"

text \<open>What the loops leave alone: the streams and the world's answers.\<close>

definition same_streams :: "world \<Rightarrow> world \<Rightarrow> bool" where
  "same_streams w w' =
     (stdout w' = stdout w \<and> stderr w' = stderr w
      \<and> write_error w' = write_error w \<and> read_text w' = read_text w
      \<and> stdout_error w' = stdout_error w \<and> flush_error w' = flush_error w)"

lemma unit_files_append:
  "unit_files td sn n (us @ vs) = unit_files td sn n us @ unit_files td sn (n + length us) vs"
  by (induction us arbitrary: n) simp_all

lemma length_unit_files [simp]: "length (unit_files td sn n us) = length us"
  by (induction us arbitrary: n) simp_all

lemma unit_files_nth:
  "i < length us \<Longrightarrow> unit_files td sn n us ! i = (snippet_file td sn (n + i + 1), us ! i)"
proof (induction us arbitrary: n i)
  case Nil
  then show ?case by simp
next
  case (Cons u us)
  then show ?case by (cases i) simp_all
qed

lemma write_file_ok:
  "write_error w p = None \<Longrightarrow> write_file p text w = Inr (w\<lparr>written := written w @ [(p, text)]\<rparr>)"
  by (simp add: write_file_def)

lemma write_file_fail:
  "write_error w p = Some e \<Longrightarrow> write_file p text w = Inl e"
  by (simp add: write_file_def)

lemma write_structs_ok:
  "writable w (map fst (unit_files td sn n (map m_group ms))) \<Longrightarrow>
   write_structs td sn ms n w =
     Inr (n + length ms, w\<lparr>written := written w @ unit_files td sn n (map m_group ms)\<rparr>)"
proof (induction ms arbitrary: n w)
  case Nil
  then show ?case by simp
next
  case (Cons m ms)
  let ?w = "w\<lparr>written := written w @ [(snippet_file td sn (n + 1), m_group m)]\<rparr>"
  from Cons.prems have ok: "write_error w (snippet_file td sn (n + 1)) = None"
    and rest: "writable ?w (map fst (unit_files td sn (n + 1) (map m_group ms)))"
    by (simp_all add: writable_def)
  from Cons.IH [OF rest] ok show ?case
    by (simp add: write_file_ok)
qed

lemma write_structs_fail:
  "\<not> writable w (map fst (unit_files td sn n (map m_group ms))) \<Longrightarrow>
   \<exists>e w'. write_structs td sn ms n w = Inl (e, w') \<and> same_streams w w'"
proof (induction ms arbitrary: n w)
  case Nil
  then show ?case by (simp add: writable_def)
next
  case (Cons m ms)
  show ?case
  proof (cases "write_error w (snippet_file td sn (n + 1))")
    case (Some e)
    then show ?thesis
      by (simp add: write_file_fail same_streams_def)
  next
    case None
    let ?w = "w\<lparr>written := written w @ [(snippet_file td sn (n + 1), m_group m)]\<rparr>"
    from None Cons.prems
    have "\<not> writable ?w (map fst (unit_files td sn (n + 1) (map m_group ms)))"
      by (simp add: writable_def)
    from Cons.IH [OF this] obtain e w' where
      "write_structs td sn ms (n + 1) ?w = Inl (e, w')" and "same_streams ?w w'"
      by blast
    with None show ?thesis
      by (simp add: write_file_ok same_streams_def)
  qed
qed

lemma write_snippet_ok:
  "writable w (map fst (unit_files td sn n (units_of snippet))) \<Longrightarrow>
   write_snippet td sn snippet n w =
     Inr (n + length (units_of snippet),
          w\<lparr>written := written w @ unit_files td sn n (units_of snippet)\<rparr>)"
proof (cases "length (struct_matches snippet) > 1")
  case True
  assume "writable w (map fst (unit_files td sn n (units_of snippet)))"
  with True show ?thesis
    by (simp add: write_snippet_def units_of_def write_structs_ok Let_def)
next
  case False
  assume "writable w (map fst (unit_files td sn n (units_of snippet)))"
  with False show ?thesis
    by (simp add: write_snippet_def units_of_def writable_def write_file_ok Let_def)
qed

lemma write_snippet_fail:
  "\<not> writable w (map fst (unit_files td sn n (units_of snippet))) \<Longrightarrow>
   \<exists>e w'. write_snippet td sn snippet n w = Inl (e, w') \<and> same_streams w w'"
proof (cases "length (struct_matches snippet) > 1")
  case True
  assume "\<not> writable w (map fst (unit_files td sn n (units_of snippet)))"
  with True have "\<not> writable w (map fst (unit_files td sn n (map m_group (struct_matches snippet))))"
    by (simp add: units_of_def Let_def)
  from write_structs_fail [OF this] True show ?thesis
    by (simp add: write_snippet_def Let_def)
next
  case False
  assume "\<not> writable w (map fst (unit_files td sn n (units_of snippet)))"
  with False obtain e where "write_error w (snippet_file td sn (n + 1)) = Some e"
    by (auto simp: units_of_def writable_def Let_def)
  with False show ?thesis
    by (simp add: write_snippet_def write_file_fail same_streams_def Let_def)
qed

lemma writable_written [simp]: "writable (w\<lparr>written := x\<rparr>) ps = writable w ps"
  by (simp add: writable_def)

lemma same_streams_written [simp]: "same_streams (w\<lparr>written := x\<rparr>) w' = same_streams w w'"
  by (simp add: same_streams_def)

lemma write_snippets_ok:
  "writable w (map fst (unit_files td sn n (output_units snips))) \<Longrightarrow>
   write_snippets td sn snips n w =
     Inr (n + length (output_units snips),
          w\<lparr>written := written w @ unit_files td sn n (output_units snips)\<rparr>)"
proof (induction snips arbitrary: n w)
  case Nil
  then show ?case by (simp add: output_units_def)
next
  case (Cons snippet rest)
  let ?us = "units_of snippet"
  let ?w = "w\<lparr>written := written w @ unit_files td sn n ?us\<rparr>"
  from Cons.prems have a: "writable w (map fst (unit_files td sn n ?us))"
    and b: "writable ?w (map fst (unit_files td sn (n + length ?us) (output_units rest)))"
    by (simp_all add: output_units_def unit_files_append writable_def)
  from Cons.IH [OF b] write_snippet_ok [OF a] show ?case
    by (simp add: output_units_def unit_files_append add.assoc)
qed

lemma write_snippets_fail:
  "\<not> writable w (map fst (unit_files td sn n (output_units snips))) \<Longrightarrow>
   \<exists>e w'. write_snippets td sn snips n w = Inl (e, w') \<and> same_streams w w'"
proof (induction snips arbitrary: n w)
  case Nil
  then show ?case by (simp add: output_units_def writable_def)
next
  case (Cons snippet rest)
  let ?us = "units_of snippet"
  show ?case
  proof (cases "writable w (map fst (unit_files td sn n ?us))")
    case False
    from write_snippet_fail [OF this] show ?thesis
      by auto
  next
    case True
    let ?w = "w\<lparr>written := written w @ unit_files td sn n ?us\<rparr>"
    from True Cons.prems
    have "\<not> writable ?w (map fst (unit_files td sn (n + length ?us) (output_units rest)))"
      by (simp add: output_units_def unit_files_append writable_def)
    from Cons.IH [OF this] obtain e w' where
      "write_snippets td sn rest (n + length ?us) ?w = Inl (e, w')" and "same_streams w w'"
      by auto
    with write_snippet_ok [OF True] show ?thesis
      by simp
  qed
qed

text \<open>The files of a whole run on the text \<open>content\<close>: the snippet files, then the count file.\<close>

definition planned_files :: "path \<Rightarrow> string \<Rightarrow> string \<Rightarrow> (path \<times> string) list" where
  "planned_files temp_dir safe_name content =
     (let us = output_units (collect_snippets content)
      in unit_files temp_dir safe_name 0 us @ [(count_file temp_dir safe_name, str (length us))])"

definition summary :: "path \<Rightarrow> string \<Rightarrow> string" where
  "summary file_path content =
     ''Extracted '' @ str (length (output_units (collect_snippets content)))
       @ '' snippets from '' @ file_path"

lemma extract_ok:
  assumes "read_text w fp = Inr content"
    and "writable w (map fst (planned_files td sn content))"
    and "stdout_error w = None"
  shows "extract_rust_snippets fp td sn w =
           (0, w\<lparr>written := written w @ planned_files td sn content,
                 stdout := stdout w @ [summary fp content]\<rparr>)"
proof -
  let ?us = "output_units (collect_snippets content)"
  from assms(2) have a: "writable w (map fst (unit_files td sn 0 ?us))"
    and b: "write_error w (count_file td sn) = None"
    by (simp_all add: planned_files_def writable_def Let_def)
  from write_snippets_ok [OF a] b assms(1,3) show ?thesis
    by (simp add: extract_rust_snippets_def write_file_def print_stdout_def planned_files_def
        summary_def Let_def)
qed

text \<open>The summary cannot be printed: every file is written, and the result is 1.\<close>

lemma extract_print_fail:
  assumes "read_text w fp = Inr content"
    and "writable w (map fst (planned_files td sn content))"
    and "stdout_error w = Some e"
  shows "extract_rust_snippets fp td sn w =
           (1, w\<lparr>written := written w @ planned_files td sn content,
                 stderr := stderr w @ [''Error processing '' @ fp @ '': '' @ e]\<rparr>)"
proof -
  let ?us = "output_units (collect_snippets content)"
  from assms(2) have a: "writable w (map fst (unit_files td sn 0 ?us))"
    and b: "write_error w (count_file td sn) = None"
    by (simp_all add: planned_files_def writable_def Let_def)
  from write_snippets_ok [OF a] b assms(1,3) show ?thesis
    by (simp add: extract_rust_snippets_def write_file_def print_stdout_def planned_files_def
        report_error_def Let_def)
qed

lemma extract_read_fail:
  assumes "read_text w fp = Inl e"
  shows "extract_rust_snippets fp td sn w =
           (1, w\<lparr>stderr := stderr w @ [''Error processing '' @ fp @ '': '' @ e]\<rparr>)"
  using assms by (simp add: extract_rust_snippets_def report_error_def)

lemma extract_write_fail:
  assumes "read_text w fp = Inr content"
    and "\<not> writable w (map fst (planned_files td sn content))"
  shows "\<exists>e w'. extract_rust_snippets fp td sn w = (1, w')
           \<and> stdout w' = stdout w \<and> flush_error w' = flush_error w
           \<and> stderr w' = stderr w @ [''Error processing '' @ fp @ '': '' @ e]"
proof -
  let ?us = "output_units (collect_snippets content)"
  show ?thesis
  proof (cases "writable w (map fst (unit_files td sn 0 ?us))")
    case False
    from write_snippets_fail [OF this] obtain e w1 where
      "write_snippets td sn (collect_snippets content) 0 w = Inl (e, w1)" and "same_streams w w1"
      by blast
    with assms(1) show ?thesis
      by (simp add: extract_rust_snippets_def report_error_def same_streams_def)
  next
    case True
    with assms(2) obtain e where "write_error w (count_file td sn) = Some e"
      by (auto simp: planned_files_def writable_def Let_def)
    with write_snippets_ok [OF True] assms(1) show ?thesis
      by (simp add: extract_rust_snippets_def report_error_def write_file_def)
  qed
qed

subsection \<open>Decimal strings and file names\<close>

definition digit_value :: "char \<Rightarrow> nat" where
  "digit_value c = (of_char c :: nat) - 48"

definition decimal_value :: "string \<Rightarrow> nat" where
  "decimal_value s = foldl (\<lambda>a c. 10 * a + digit_value c) 0 s"

lemma digit_value_digit: "d < 10 \<Longrightarrow> digit_value (digit d) = d"
proof -
  assume "d < 10"
  then have "d = 0 \<or> d = 1 \<or> d = 2 \<or> d = 3 \<or> d = 4 \<or> d = 5 \<or> d = 6 \<or> d = 7 \<or> d = 8 \<or> d = 9"
    by presburger
  then show ?thesis
    by (elim disjE) (simp_all add: digit_def digit_value_def)
qed

lemma decimal_value_str: "decimal_value (str n) = n"
proof (induction n rule: str.induct)
  case (1 n)
  show ?case
  proof (cases "n < 10")
    case True
    then show ?thesis
      by (simp add: str.simps [of n] decimal_value_def digit_value_digit)
  next
    case False
    with 1 have "decimal_value (str (n div 10)) = n div 10"
      by simp
    with False show ?thesis
      by (simp add: str.simps [of n] decimal_value_def digit_value_digit)
  qed
qed

lemma str_inject: "str i = str j \<Longrightarrow> i = j"
  by (metis decimal_value_str)

lemma path_join_last: "b \<noteq> [] \<Longrightarrow> last (path_join a b) = last b"
  by (simp add: path_join_def)

lemma snippet_file_inject:
  assumes "snippet_file td sn i = snippet_file td sn j"
  shows "i = j"
proof -
  let ?b = "\<lambda>n. sn @ ''_snippet_'' @ str n @ ''.rs''"
  have same: "startswith (?b i) ''/'' = startswith (?b j) ''/''"
    by (cases sn) (simp_all add: startswith_def)
  from assms have "path_join td (?b i) = path_join td (?b j)"
    by (simp add: snippet_file_def)
  with same have "?b i = ?b j"
    by (auto simp: path_join_def split: if_splits)
  then show ?thesis
    by (simp add: str_inject)
qed

lemma count_file_not_snippet_file: "count_file td sn \<noteq> snippet_file td sn n"
proof
  assume "count_file td sn = snippet_file td sn n"
  then have "last (count_file td sn) = last (snippet_file td sn n)"
    by simp
  then show False
    by (simp add: count_file_def snippet_file_def path_join_last)
qed

lemma unit_files_by_index:
  "unit_files td sn 0 us = map (\<lambda>i. (snippet_file td sn (i + 1), us ! i)) [0..<length us]"
  by (rule nth_equalityI) (simp_all add: unit_files_nth)

lemma extract_success:
  assumes "extract_rust_snippets fp td sn w = (0, w')"
  shows "\<exists>content. read_text w fp = Inr content
           \<and> writable w (map fst (planned_files td sn content))
           \<and> stdout_error w = None
           \<and> w' = w\<lparr>written := written w @ planned_files td sn content,
                      stdout := stdout w @ [summary fp content]\<rparr>"
proof (cases "read_text w fp")
  case (Inl e)
  from extract_read_fail [OF this] assms show ?thesis
    by simp
next
  case (Inr content)
  show ?thesis
  proof (cases "writable w (map fst (planned_files td sn content))")
    case True
    show ?thesis
    proof (cases "stdout_error w")
      case None
      from extract_ok [OF Inr True None] assms Inr True None show ?thesis
        by simp
    next
      case (Some e)
      from extract_print_fail [OF Inr True Some] assms show ?thesis
        by simp
    qed
  next
    case False
    from extract_write_fail [OF Inr False] assms show ?thesis
      by auto
  qed
qed

section \<open>The count file and the snippet files\<close>

text \<open>
  C1. A run that ends with result 0 has read the document and has written, in this
  order and nothing else: the \<open>k\<close> output units of the document to the files
  \<open>snippet_file\<close> 1 to \<open>k\<close>, one each, and the decimal string of \<open>k\<close> to the
  count file. The \<open>k\<close> snippet files are \<open>k\<close> different files, none of them the
  count file, and the string written to the count file reads back as \<open>k\<close>.
\<close>

theorem count_equals_snippet_files_written:
  assumes "extract_rust_snippets fp td sn w = (0, w')"
  shows "\<exists>content us k.
           read_text w fp = Inr content
           \<and> us = output_units (collect_snippets content) \<and> k = length us
           \<and> written w' =
               written w @ map (\<lambda>i. (snippet_file td sn (i + 1), us ! i)) [0..<k]
                 @ [(count_file td sn, str k)]
           \<and> decimal_value (str k) = k
           \<and> distinct (map (\<lambda>i. snippet_file td sn (i + 1)) [0..<k])
           \<and> count_file td sn \<notin> set (map (\<lambda>i. snippet_file td sn (i + 1)) [0..<k])"
proof -
  from extract_success [OF assms] obtain content where
    rd: "read_text w fp = Inr content"
    and w': "w' = w\<lparr>written := written w @ planned_files td sn content,
                     stdout := stdout w @ [summary fp content]\<rparr>"
    by blast
  let ?us = "output_units (collect_snippets content)"
  have files: "written w' =
      written w @ map (\<lambda>i. (snippet_file td sn (i + 1), ?us ! i)) [0..<length ?us]
        @ [(count_file td sn, str (length ?us))]"
    using w' unit_files_by_index [of td sn ?us]
    by (simp add: planned_files_def Let_def)
  have dist: "distinct (map (\<lambda>i. snippet_file td sn (i + 1)) [0..<length ?us])"
    by (simp add: distinct_map inj_on_def) (blast dest: snippet_file_inject)
  have cnt: "count_file td sn \<notin> set (map (\<lambda>i. snippet_file td sn (i + 1)) [0..<length ?us])"
    by (auto simp: count_file_not_snippet_file)
  from rd files dist cnt show ?thesis
    by (simp add: decimal_value_str)
qed

section \<open>Concrete runs\<close>

text \<open>
  \<open>fresh_world fp content\<close>: the file \<open>fp\<close> holds \<open>content\<close>, no other file
  can be read, every file can be written, nothing is written yet, and the standard
  streams work.
\<close>

definition fresh_world :: "path \<Rightarrow> string \<Rightarrow> world" where
  "fresh_world fp content =
     \<lparr>read_text = (\<lambda>p. if p = fp then Inr content else Inl ''No such file''),
      write_error = (\<lambda>p. None), written = [], stdout = [], stderr = [],
      stdout_error = None, flush_error = False\<rparr>"

definition doc_add :: string where
  "doc_add = ''# Sum\<newline>```rust\<newline>fn add(a: i32, b: i32) -> i32 { a + b }\<newline>```\<newline>''"

definition doc_two :: string where
  "doc_two = doc_add @ ''```rust\<newline>fn one() -> u8 { 1 }\<newline>```''"

lemmas eval_text = nl_def isspace_def isword_def lower_def strip_def startswith_def
  digit_def str.simps path_join_def

lemmas eval_rx = lit_def ilit_def plus_def re_match_def bol_after_def finditer.simps

lemmas eval_run = fresh_world_def extract_rust_snippets_def main_def usage_def report_error_def
  write_file_def write_snippet_def snippet_file_def count_file_def print_stdout_def sys_exit_def

lemmas eval_scan = placeholder_patterns_def is_placeholder_snippet_def scan_init_def
  fence_open_def fence_close_def scan_line_def scan_lines_def collect_snippets_def
  struct_head_def struct_body_def struct_pattern_def struct_matches_def Let_def


theorem count_equals_snippet_files_written_witness:
  "extract_rust_snippets ''doc.md'' ''out'' ''doc'' (fresh_world ''doc.md'' doc_two) =
     (0, (fresh_world ''doc.md'' doc_two)
           \<lparr>written := [(''out/doc_snippet_1.rs'', ''fn add(a: i32, b: i32) -> i32 { a + b }''),
                        (''out/doc_snippet_2.rs'', ''fn one() -> u8 { 1 }''),
                        (''out/count_doc.txt'', ''2'')],
             stdout := [''Extracted 2 snippets from doc.md'']\<rparr>)
   \<and> (\<exists>content us k.
         read_text (fresh_world ''doc.md'' doc_two) ''doc.md'' = Inr content
         \<and> us = output_units (collect_snippets content) \<and> k = length us
         \<and> [(''out/doc_snippet_1.rs'', ''fn add(a: i32, b: i32) -> i32 { a + b }''),
             (''out/doc_snippet_2.rs'', ''fn one() -> u8 { 1 }''),
             (''out/count_doc.txt'', ''2'')] =
             map (\<lambda>i. (snippet_file ''out'' ''doc'' (i + 1), us ! i)) [0..<k]
               @ [(count_file ''out'' ''doc'', str k)]
         \<and> decimal_value (str k) = k
         \<and> distinct (map (\<lambda>i. snippet_file ''out'' ''doc'' (i + 1)) [0..<k])
         \<and> count_file ''out'' ''doc'' \<notin> set (map (\<lambda>i. snippet_file ''out'' ''doc'' (i + 1)) [0..<k]))"
proof -
  have run: "extract_rust_snippets ''doc.md'' ''out'' ''doc'' (fresh_world ''doc.md'' doc_two) =
     (0, (fresh_world ''doc.md'' doc_two)
           \<lparr>written := [(''out/doc_snippet_1.rs'', ''fn add(a: i32, b: i32) -> i32 { a + b }''),
                        (''out/doc_snippet_2.rs'', ''fn one() -> u8 { 1 }''),
                        (''out/count_doc.txt'', ''2'')],
             stdout := [''Extracted 2 snippets from doc.md'']\<rparr>)"
    by (simp add: eval_run doc_two_def doc_add_def eval_text eval_rx eval_scan)
  from count_equals_snippet_files_written [OF run] have
    "\<exists>content us k.
         read_text (fresh_world ''doc.md'' doc_two) ''doc.md'' = Inr content
         \<and> us = output_units (collect_snippets content) \<and> k = length us
         \<and> [(''out/doc_snippet_1.rs'', ''fn add(a: i32, b: i32) -> i32 { a + b }''),
             (''out/doc_snippet_2.rs'', ''fn one() -> u8 { 1 }''),
             (''out/count_doc.txt'', ''2'')] =
             map (\<lambda>i. (snippet_file ''out'' ''doc'' (i + 1), us ! i)) [0..<k]
               @ [(count_file ''out'' ''doc'', str k)]
         \<and> decimal_value (str k) = k
         \<and> distinct (map (\<lambda>i. snippet_file ''out'' ''doc'' (i + 1)) [0..<k])
         \<and> count_file ''out'' ''doc'' \<notin> set (map (\<lambda>i. snippet_file ''out'' ''doc'' (i + 1)) [0..<k])"
    by (simp add: fresh_world_def)
  with run show ?thesis
    by (rule conjI)
qed

section \<open>The scanner\<close>

lemma scan_lines_Nil [simp]: "scan_lines st [] = st"
  by (simp add: scan_lines_def)

lemma scan_lines_Cons [simp]: "scan_lines st (l # ls) = scan_lines (scan_line st l) ls"
  by (simp add: scan_lines_def)

lemma scan_lines_append: "scan_lines st (ks @ ls) = scan_lines (scan_lines st ks) ls"
  by (simp add: scan_lines_def)

lemma fence_close_not_open: "fence_close l \<Longrightarrow> \<not> fence_open l"
  by (simp add: fence_close_def fence_open_def startswith_def)

text \<open>Outside a block, lines that open no block change nothing.\<close>

lemma scan_outside:
  "\<not> in_rust_block st \<Longrightarrow> \<forall>l \<in> set ls. \<not> fence_open l \<Longrightarrow> scan_lines st ls = st"
  by (induction ls arbitrary: st) (simp_all add: scan_line_def)

text \<open>Inside a block, lines that close no block emit nothing and stay inside.\<close>

lemma scan_line_inside:
  "in_rust_block st \<Longrightarrow> \<not> fence_close l \<Longrightarrow>
   in_rust_block (scan_line st l) \<and> snippets (scan_line st l) = snippets st"
  by (simp add: scan_line_def)

lemma scan_inside:
  "in_rust_block st \<Longrightarrow> \<forall>l \<in> set ls. \<not> fence_close l \<Longrightarrow>
   in_rust_block (scan_lines st ls) \<and> snippets (scan_lines st ls) = snippets st"
proof (induction ls arbitrary: st)
  case Nil
  then show ?case by simp
next
  case (Cons l ls)
  from Cons.prems have "in_rust_block (scan_line st l)" and "snippets (scan_line st l) = snippets st"
    by (simp_all add: scan_line_inside)
  with Cons.IH [of "scan_line st l"] Cons.prems show ?case
    by simp
qed

text \<open>Inside a block, lines that are no fence are collected.\<close>

lemma scan_body:
  "in_rust_block st \<Longrightarrow> \<forall>l \<in> set ls. \<not> fence_open l \<and> \<not> fence_close l \<Longrightarrow>
   scan_lines st ls = st\<lparr>current_snippet := current_snippet st @ ls\<rparr>"
proof (induction ls arbitrary: st)
  case Nil
  then show ?case by simp
next
  case (Cons l ls)
  let ?st = "st\<lparr>current_snippet := current_snippet st @ [l]\<rparr>"
  from Cons.prems have step: "scan_line st l = ?st"
    by (simp add: scan_line_def)
  from Cons.prems have "in_rust_block ?st" and "\<forall>l \<in> set ls. \<not> fence_open l \<and> \<not> fence_close l"
    by simp_all
  from Cons.IH [OF this] step show ?case
    by simp
qed

lemma collect_no_fence:
  "\<forall>l \<in> set (split_nl content). \<not> fence_open l \<Longrightarrow> collect_snippets content = []"
  by (simp add: collect_snippets_def scan_outside scan_init_def)

lemma main_ok:
  assumes "read_text w fp = Inr content"
    and "writable w (map fst (planned_files td sn content))"
    and "stdout_error w = None"
    and "\<not> flush_error w"
  shows "main [prog, fp, td, sn] w =
           (0, w\<lparr>written := written w @ planned_files td sn content,
                 stdout := stdout w @ [summary fp content]\<rparr>)"
  using extract_ok [OF assms(1-3)] assms(4) by (simp add: main_def sys_exit_def)

text \<open>The files are written whether or not the summary can be printed afterwards.\<close>

lemma main_written:
  assumes "read_text w fp = Inr content"
    and "writable w (map fst (planned_files td sn content))"
  shows "written (snd (main [prog, fp, td, sn] w)) = written w @ planned_files td sn content"
proof (cases "stdout_error w")
  case None
  from extract_ok [OF assms None] show ?thesis
    by (simp add: main_def sys_exit_def)
next
  case (Some e)
  from extract_print_fail [OF assms Some] show ?thesis
    by (simp add: main_def sys_exit_def)
qed

section \<open>Documents without a block\<close>

text \<open>
  C3. When no line of the document opens a rust block, and the document can be read and
  the count file written, the run writes no snippet file and writes the count file with
  the text \<open>0\<close>. When moreover the summary can be printed and the streams flushed,
  the run ends with exit code 0, and the summary line counts 0 snippets.
\<close>

theorem no_fence_zero_snippets:
  assumes "read_text w fp = Inr content"
    and "\<forall>l \<in> set (split_nl content). \<not> fence_open l"
    and "write_error w (count_file td sn) = None"
  shows "written (snd (main [prog, fp, td, sn] w)) = written w @ [(count_file td sn, ''0'')]
         \<and> (stdout_error w = None \<and> \<not> flush_error w \<longrightarrow>
              main [prog, fp, td, sn] w =
                (0, w\<lparr>written := written w @ [(count_file td sn, ''0'')],
                      stdout := stdout w @ [''Extracted 0 snippets from '' @ fp]\<rparr>))"
proof (intro conjI impI)
  from assms(2) have none: "collect_snippets content = []"
    by (rule collect_no_fence)
  then have plan: "planned_files td sn content = [(count_file td sn, ''0'')]"
    by (simp add: planned_files_def output_units_def str.simps digit_def)
  with assms(3) have ok: "writable w (map fst (planned_files td sn content))"
    by (simp add: writable_def)
  from main_written [OF assms(1) ok] plan
  show "written (snd (main [prog, fp, td, sn] w)) = written w @ [(count_file td sn, ''0'')]"
    by simp
  assume "stdout_error w = None \<and> \<not> flush_error w"
  then have "stdout_error w = None" and "\<not> flush_error w"
    by simp_all
  from main_ok [OF assms(1) ok this] plan none
  show "main [prog, fp, td, sn] w =
      (0, w\<lparr>written := written w @ [(count_file td sn, ''0'')],
            stdout := stdout w @ [''Extracted 0 snippets from '' @ fp]\<rparr>)"
    by (simp add: summary_def output_units_def str.simps digit_def)
qed

definition doc_plain :: string where
  "doc_plain = ''# Title\<newline>```python\<newline>print(1)\<newline>```\<newline>''"

theorem no_fence_zero_snippets_witness:
  "read_text (fresh_world ''doc.md'' doc_plain) ''doc.md'' = Inr doc_plain
   \<and> list_all (\<lambda>l. \<not> fence_open l) (split_nl doc_plain)
   \<and> write_error (fresh_world ''doc.md'' doc_plain) (count_file ''out'' ''doc'') = None
   \<and> stdout_error (fresh_world ''doc.md'' doc_plain) = None
   \<and> \<not> flush_error (fresh_world ''doc.md'' doc_plain)
   \<and> main [''extract_rust_snippets.py'', ''doc.md'', ''out'', ''doc''] (fresh_world ''doc.md'' doc_plain) =
       (0, (fresh_world ''doc.md'' doc_plain)
             \<lparr>written := [(''out/count_doc.txt'', ''0'')],
               stdout := [''Extracted 0 snippets from doc.md'']\<rparr>)"
proof -
  let ?w = "fresh_world ''doc.md'' doc_plain"
  let ?argv = "[''extract_rust_snippets.py'', ''doc.md'', ''out'', ''doc'']"
  have a: "read_text ?w ''doc.md'' = Inr doc_plain"
    by (simp add: fresh_world_def)
  have b: "\<forall>l \<in> set (split_nl doc_plain). \<not> fence_open l"
    by (simp add: doc_plain_def eval_text fence_open_def)
  have c: "write_error ?w (count_file ''out'' ''doc'') = None"
    by (simp add: fresh_world_def)
  have d: "stdout_error ?w = None"
    by (simp add: fresh_world_def)
  have e: "\<not> flush_error ?w"
    by (simp add: fresh_world_def)
  have "written (snd (main ?argv ?w)) = written ?w @ [(count_file ''out'' ''doc'', ''0'')]
      \<and> (stdout_error ?w = None \<and> \<not> flush_error ?w \<longrightarrow>
           main ?argv ?w =
             (0, ?w\<lparr>written := written ?w @ [(count_file ''out'' ''doc'', ''0'')],
                     stdout := stdout ?w @ [''Extracted 0 snippets from '' @ ''doc.md'']\<rparr>))"
    by (rule no_fence_zero_snippets [OF a b c])
  with d e have "main ?argv ?w =
      (0, ?w\<lparr>written := written ?w @ [(count_file ''out'' ''doc'', ''0'')],
              stdout := stdout ?w @ [''Extracted 0 snippets from '' @ ''doc.md'']\<rparr>)"
    by blast
  then have "main ?argv ?w =
      (0, ?w\<lparr>written := [(''out/count_doc.txt'', ''0'')],
              stdout := [''Extracted 0 snippets from doc.md'']\<rparr>)"
    by (simp add: count_file_def eval_text fresh_world_def)
  moreover from b have "list_all (\<lambda>l. \<not> fence_open l) (split_nl doc_plain)"
    by (simp add: list_all_iff)
  ultimately show ?thesis
    using a c d e by simp
qed

section \<open>An opening fence inside a block\<close>

text \<open>
  C5, as claimed: inside a block, a line that opens a rust block is appended to the lines
  collected so far. The code tests for the opening fence first, whether inside a block
  or not: with \<open>fn first() {}\<close> collected, the line \<open>```rust\<close> leaves the
  accumulator empty.
\<close>

theorem nested_fence_appended_counterexample:
  "in_rust_block \<lparr>in_rust_block = True, current_snippet = [''fn first() {}''], snippets = []\<rparr>
   \<and> fence_open ''```rust''
   \<and> current_snippet
         (scan_line \<lparr>in_rust_block = True, current_snippet = [''fn first() {}''], snippets = []\<rparr>
            ''```rust'')
       \<noteq> current_snippet
           \<lparr>in_rust_block = True, current_snippet = [''fn first() {}''], snippets = []\<rparr>
         @ [''```rust'']"
  by (simp add: scan_line_def fence_open_def eval_text)

text \<open>
  C5, amended. Inside a block, a line that opens a rust block starts the block again:
  the lines collected so far are dropped, the fence line is not collected, the scanner
  stays inside the block, and no snippet is emitted. The dropped lines do not come back:
  the snippet that the next closing fence emits is made of the lines after the nested
  opening fence only.
\<close>

theorem nested_fence_restarts_block:
  assumes "in_rust_block st" and "fence_open line"
  shows "scan_line st line = st\<lparr>current_snippet := []\<rparr>
         \<and> ((\<forall>l \<in> set body. \<not> fence_open l \<and> \<not> fence_close l) \<longrightarrow>
              current_snippet (scan_lines st (line # body)) = body)"
proof (intro conjI impI)
  from assms show step: "scan_line st line = st\<lparr>current_snippet := []\<rparr>"
    by (simp add: scan_line_def)
  assume "\<forall>l \<in> set body. \<not> fence_open l \<and> \<not> fence_close l"
  with assms(1) have "scan_lines (st\<lparr>current_snippet := []\<rparr>) body =
      st\<lparr>current_snippet := [], current_snippet := [] @ body\<rparr>"
    using scan_body [of "st\<lparr>current_snippet := []\<rparr>" body] by simp
  with step show "current_snippet (scan_lines st (line # body)) = body"
    by simp
qed

theorem nested_fence_restarts_block_witness:
  "in_rust_block \<lparr>in_rust_block = True, current_snippet = [''fn first() {}''], snippets = []\<rparr>
   \<and> fence_open ''```rust''
   \<and> \<not> fence_open ''fn second_one() {}'' \<and> \<not> fence_close ''fn second_one() {}''
   \<and> scan_line \<lparr>in_rust_block = True, current_snippet = [''fn first() {}''], snippets = []\<rparr>
         ''```rust''
       = \<lparr>in_rust_block = True, current_snippet = [], snippets = []\<rparr>
   \<and> current_snippet
         (scan_lines \<lparr>in_rust_block = True, current_snippet = [''fn first() {}''], snippets = []\<rparr>
            [''```rust'', ''fn second_one() {}''])
       = [''fn second_one() {}'']"
proof -
  let ?st = "\<lparr>in_rust_block = True, current_snippet = [''fn first() {}''], snippets = []\<rparr>"
  have a: "in_rust_block ?st"
    by simp
  have b: "fence_open ''```rust''"
    by (simp add: fence_open_def eval_text)
  have c: "\<forall>l \<in> set [''fn second_one() {}'']. \<not> fence_open l \<and> \<not> fence_close l"
    by (simp add: fence_open_def fence_close_def eval_text)
  have "scan_line ?st ''```rust'' = ?st\<lparr>current_snippet := []\<rparr>
      \<and> ((\<forall>l \<in> set [''fn second_one() {}'']. \<not> fence_open l \<and> \<not> fence_close l) \<longrightarrow>
           current_snippet (scan_lines ?st [''```rust'', ''fn second_one() {}''])
             = [''fn second_one() {}''])"
    by (rule nested_fence_restarts_block [OF a b])
  with c have "scan_line ?st ''```rust'' = ?st\<lparr>current_snippet := []\<rparr>"
    and "current_snippet (scan_lines ?st [''```rust'', ''fn second_one() {}''])
           = [''fn second_one() {}'']"
    by blast+
  with a b c show ?thesis
    by simp
qed

section \<open>A block that is never closed\<close>

lemma scan_unclosed:
  assumes "fence_open opn" and "\<forall>l \<in> set dangling. \<not> fence_close l"
  shows "snippets (scan_lines st (pre @ opn # dangling)) = snippets (scan_lines st pre)"
proof -
  let ?st = "scan_lines st pre"
  from assms(1) have "in_rust_block (scan_line ?st opn)"
    and "snippets (scan_line ?st opn) = snippets ?st"
    by (simp_all add: scan_line_def)
  with scan_inside [OF _ assms(2), of "scan_line ?st opn"] show ?thesis
    by (simp add: scan_lines_append)
qed

text \<open>
  C8. When the document ends inside a block (after the opening fence \<open>opn\<close> no line
  closes a block), the snippets are those of the lines before \<open>opn\<close>: the lines after
  it give no snippet. The run then goes on as it does for any document: when the
  document can be read and the files written, it writes the files of those snippets
  only, and their number in the count file; when moreover the summary can be printed
  and the streams flushed, it ends with exit code 0.
\<close>

theorem unclosed_block_dropped:
  assumes "read_text w fp = Inr content"
    and "split_nl content = pre @ opn # dangling"
    and "fence_open opn"
    and "\<forall>l \<in> set dangling. \<not> fence_close l"
    and "us = output_units (snippets (scan_lines scan_init pre))"
    and "writable w (map fst (unit_files td sn 0 us) @ [count_file td sn])"
  shows "collect_snippets content = snippets (scan_lines scan_init pre)
         \<and> written (snd (main [prog, fp, td, sn] w)) =
             written w @ unit_files td sn 0 us @ [(count_file td sn, str (length us))]
         \<and> (stdout_error w = None \<and> \<not> flush_error w \<longrightarrow>
              main [prog, fp, td, sn] w =
                (0, w\<lparr>written := written w @ unit_files td sn 0 us
                                   @ [(count_file td sn, str (length us))],
                      stdout := stdout w
                        @ [''Extracted '' @ str (length us) @ '' snippets from '' @ fp]\<rparr>))"
proof (intro conjI impI)
  from scan_unclosed [OF assms(3,4)] assms(2)
  show snips: "collect_snippets content = snippets (scan_lines scan_init pre)"
    by (simp add: collect_snippets_def)
  with assms(5) have plan: "planned_files td sn content =
      unit_files td sn 0 us @ [(count_file td sn, str (length us))]"
    by (simp add: planned_files_def Let_def)
  with assms(6) have ok: "writable w (map fst (planned_files td sn content))"
    by simp
  from main_written [OF assms(1) ok] plan
  show "written (snd (main [prog, fp, td, sn] w)) =
      written w @ unit_files td sn 0 us @ [(count_file td sn, str (length us))]"
    by simp
  assume "stdout_error w = None \<and> \<not> flush_error w"
  then have "stdout_error w = None" and "\<not> flush_error w"
    by simp_all
  from main_ok [OF assms(1) ok this] plan snips assms(5)
  show "main [prog, fp, td, sn] w =
      (0, w\<lparr>written := written w @ unit_files td sn 0 us
                         @ [(count_file td sn, str (length us))],
            stdout := stdout w
              @ [''Extracted '' @ str (length us) @ '' snippets from '' @ fp]\<rparr>)"
    by (simp add: summary_def)
qed

definition doc_unclosed :: string where
  "doc_unclosed = doc_add @ ''```rust\<newline>fn dangling() {}\<newline>''"

theorem unclosed_block_dropped_witness:
  "read_text (fresh_world ''doc.md'' doc_unclosed) ''doc.md'' = Inr doc_unclosed
   \<and> split_nl doc_unclosed =
       [''# Sum'', ''```rust'', ''fn add(a: i32, b: i32) -> i32 { a + b }'', ''```'']
         @ ''```rust'' # [''fn dangling() {}'', '''']
   \<and> fence_open ''```rust''
   \<and> \<not> fence_close ''fn dangling() {}'' \<and> \<not> fence_close ''''
   \<and> [''fn add(a: i32, b: i32) -> i32 { a + b }''] =
       output_units (snippets (scan_lines scan_init
         [''# Sum'', ''```rust'', ''fn add(a: i32, b: i32) -> i32 { a + b }'', ''```'']))
   \<and> writable (fresh_world ''doc.md'' doc_unclosed)
         (map fst (unit_files ''out'' ''doc'' 0 [''fn add(a: i32, b: i32) -> i32 { a + b }''])
            @ [count_file ''out'' ''doc''])
   \<and> stdout_error (fresh_world ''doc.md'' doc_unclosed) = None
   \<and> \<not> flush_error (fresh_world ''doc.md'' doc_unclosed)
   \<and> collect_snippets doc_unclosed = [''fn add(a: i32, b: i32) -> i32 { a + b }'']
   \<and> main [''extract_rust_snippets.py'', ''doc.md'', ''out'', ''doc'']
         (fresh_world ''doc.md'' doc_unclosed) =
       (0, (fresh_world ''doc.md'' doc_unclosed)
             \<lparr>written := [(''out/doc_snippet_1.rs'', ''fn add(a: i32, b: i32) -> i32 { a + b }''),
                          (''out/count_doc.txt'', ''1'')],
               stdout := [''Extracted 1 snippets from doc.md'']\<rparr>)"
proof -
  let ?pre = "[''# Sum'', ''```rust'', ''fn add(a: i32, b: i32) -> i32 { a + b }'', ''```'']"
  let ?us = "[''fn add(a: i32, b: i32) -> i32 { a + b }'']"
  have a: "read_text (fresh_world ''doc.md'' doc_unclosed) ''doc.md'' = Inr doc_unclosed"
    by (simp add: fresh_world_def)
  have b: "split_nl doc_unclosed = ?pre @ ''```rust'' # [''fn dangling() {}'', '''']"
    by (simp add: doc_unclosed_def doc_add_def nl_def)
  have c: "fence_open ''```rust''"
    by (simp add: fence_open_def eval_text)
  have d: "\<forall>l \<in> set [''fn dangling() {}'', '''']. \<not> fence_close l"
    by (simp add: fence_close_def eval_text)
  have g: "snippets (scan_lines scan_init ?pre) = ?us"
    by (simp add: eval_text eval_rx eval_scan)
  have e: "?us = output_units (snippets (scan_lines scan_init ?pre))"
    by (simp add: g output_units_def units_of_def eval_text eval_rx eval_scan)
  have f: "writable (fresh_world ''doc.md'' doc_unclosed)
             (map fst (unit_files ''out'' ''doc'' 0 ?us) @ [count_file ''out'' ''doc''])"
    by (simp add: writable_def fresh_world_def)
  have so: "stdout_error (fresh_world ''doc.md'' doc_unclosed) = None"
    by (simp add: fresh_world_def)
  have fl: "\<not> flush_error (fresh_world ''doc.md'' doc_unclosed)"
    by (simp add: fresh_world_def)
  have "collect_snippets doc_unclosed = snippets (scan_lines scan_init ?pre)
      \<and> written (snd (main [''extract_rust_snippets.py'', ''doc.md'', ''out'', ''doc'']
            (fresh_world ''doc.md'' doc_unclosed))) =
          written (fresh_world ''doc.md'' doc_unclosed) @ unit_files ''out'' ''doc'' 0 ?us
            @ [(count_file ''out'' ''doc'', str (length ?us))]
      \<and> (stdout_error (fresh_world ''doc.md'' doc_unclosed) = None
           \<and> \<not> flush_error (fresh_world ''doc.md'' doc_unclosed) \<longrightarrow>
          main [''extract_rust_snippets.py'', ''doc.md'', ''out'', ''doc'']
            (fresh_world ''doc.md'' doc_unclosed) =
          (0, (fresh_world ''doc.md'' doc_unclosed)
                \<lparr>written := written (fresh_world ''doc.md'' doc_unclosed)
                     @ unit_files ''out'' ''doc'' 0 ?us
                     @ [(count_file ''out'' ''doc'', str (length ?us))],
                  stdout := stdout (fresh_world ''doc.md'' doc_unclosed)
                     @ [''Extracted '' @ str (length ?us) @ '' snippets from '' @ ''doc.md'']\<rparr>))"
    by (rule unclosed_block_dropped [OF a b c d e f])
  with so fl have "collect_snippets doc_unclosed = snippets (scan_lines scan_init ?pre)"
    and "main [''extract_rust_snippets.py'', ''doc.md'', ''out'', ''doc'']
            (fresh_world ''doc.md'' doc_unclosed) =
          (0, (fresh_world ''doc.md'' doc_unclosed)
                \<lparr>written := written (fresh_world ''doc.md'' doc_unclosed)
                     @ unit_files ''out'' ''doc'' 0 ?us
                     @ [(count_file ''out'' ''doc'', str (length ?us))],
                  stdout := stdout (fresh_world ''doc.md'' doc_unclosed)
                     @ [''Extracted '' @ str (length ?us) @ '' snippets from '' @ ''doc.md'']\<rparr>)"
    by blast+
  then have "collect_snippets doc_unclosed = ?us"
    and "main [''extract_rust_snippets.py'', ''doc.md'', ''out'', ''doc'']
            (fresh_world ''doc.md'' doc_unclosed) =
          (0, (fresh_world ''doc.md'' doc_unclosed)
             \<lparr>written := [(''out/doc_snippet_1.rs'', ''fn add(a: i32, b: i32) -> i32 { a + b }''),
                          (''out/count_doc.txt'', ''1'')],
               stdout := [''Extracted 1 snippets from doc.md'']\<rparr>)"
    using g by (simp_all add: fresh_world_def snippet_file_def count_file_def eval_text)
  with a b c d e f so fl show ?thesis
    by simp
qed

section \<open>A document with one block\<close>

lemma scan_one_block:
  assumes "\<forall>l \<in> set pre. \<not> fence_open l"
    and "fence_open opn"
    and "\<forall>l \<in> set body. \<not> fence_open l \<and> \<not> fence_close l"
    and "fence_close cls"
    and "\<forall>l \<in> set post. \<not> fence_open l"
    and "strip (join_nl body) \<noteq> []"
    and "\<not> is_placeholder_snippet (strip (join_nl body))"
  shows "snippets (scan_lines scan_init (pre @ [opn] @ body @ [cls] @ post)) =
           [strip (join_nl body)]"
proof -
  let ?code = "strip (join_nl body)"
  let ?s1 = "scan_init\<lparr>in_rust_block := True, current_snippet := []\<rparr>"
  let ?s2 = "?s1\<lparr>current_snippet := body\<rparr>"
  let ?s3 = "\<lparr>in_rust_block = False, current_snippet = [], snippets = [?code]\<rparr>"
  from assms(6) have nonempty: "body \<noteq> []"
    by (auto simp: strip_def)
  have p1: "scan_lines scan_init pre = scan_init"
    using assms(1) by (simp add: scan_outside scan_init_def)
  have p2: "scan_line scan_init opn = ?s1"
    using assms(2) by (simp add: scan_line_def)
  have p3: "scan_lines ?s1 body = ?s2"
    using scan_body [of ?s1 body] assms(3) by simp
  have p4: "scan_line ?s2 cls = ?s3"
    using assms(4,6,7) nonempty fence_close_not_open [OF assms(4)]
    by (simp add: scan_line_def scan_init_def Let_def)
  have p5: "scan_lines ?s3 post = ?s3"
    using assms(5) by (simp add: scan_outside)
  from p1 p2 p3 p4 p5 show ?thesis
    by (simp add: scan_lines_append)
qed

text \<open>
  C2. The lines of the document are: lines that open no block, an opening fence, body
  lines that are no fence, a closing fence, lines that open no block. The body, joined
  and stripped, has at least 10 characters, is no placeholder, and holds at most one
  match of the struct pattern. Then the run (the document can be read, the two files
  written) writes exactly the snippet file 1, holding the stripped body, and the count
  file, holding \<open>1\<close>. When moreover the summary can be printed and the streams
  flushed, the run ends with exit code 0.
\<close>

theorem one_block_one_file:
  assumes "read_text w fp = Inr content"
    and "split_nl content = pre @ [opn] @ body @ [cls] @ post"
    and "\<forall>l \<in> set pre. \<not> fence_open l"
    and "fence_open opn"
    and "\<forall>l \<in> set body. \<not> fence_open l \<and> \<not> fence_close l"
    and "fence_close cls"
    and "\<forall>l \<in> set post. \<not> fence_open l"
    and "code = strip (join_nl body)"
    and "10 \<le> length code"
    and "\<not> is_placeholder_snippet code"
    and "length (struct_matches code) \<le> 1"
    and "write_error w (snippet_file td sn 1) = None"
    and "write_error w (count_file td sn) = None"
  shows "written (snd (main [prog, fp, td, sn] w)) =
           written w @ [(snippet_file td sn 1, code), (count_file td sn, ''1'')]
         \<and> (stdout_error w = None \<and> \<not> flush_error w \<longrightarrow>
              main [prog, fp, td, sn] w =
                (0, w\<lparr>written := written w
                        @ [(snippet_file td sn 1, code), (count_file td sn, ''1'')],
                      stdout := stdout w @ [''Extracted 1 snippets from '' @ fp]\<rparr>))"
proof (intro conjI impI)
  from assms(8,9) have "strip (join_nl body) \<noteq> []"
    by auto
  from scan_one_block [OF assms(3-7) this] assms(2,8,10)
  have snips: "collect_snippets content = [code]"
    by (simp add: collect_snippets_def)
  with assms(11) have units: "output_units (collect_snippets content) = [code]"
    by (simp add: output_units_def units_of_def Let_def)
  then have plan: "planned_files td sn content =
      [(snippet_file td sn 1, code), (count_file td sn, ''1'')]"
    by (simp add: planned_files_def str.simps digit_def)
  with assms(12,13) have ok: "writable w (map fst (planned_files td sn content))"
    by (simp add: writable_def)
  from main_written [OF assms(1) ok] plan
  show "written (snd (main [prog, fp, td, sn] w)) =
      written w @ [(snippet_file td sn 1, code), (count_file td sn, ''1'')]"
    by simp
  assume "stdout_error w = None \<and> \<not> flush_error w"
  then have "stdout_error w = None" and "\<not> flush_error w"
    by simp_all
  from main_ok [OF assms(1) ok this] plan units
  show "main [prog, fp, td, sn] w =
      (0, w\<lparr>written := written w @ [(snippet_file td sn 1, code), (count_file td sn, ''1'')],
            stdout := stdout w @ [''Extracted 1 snippets from '' @ fp]\<rparr>)"
    by (simp add: summary_def str.simps digit_def)
qed

theorem one_block_one_file_witness:
  "read_text (fresh_world ''doc.md'' doc_add) ''doc.md'' = Inr doc_add
   \<and> split_nl doc_add =
       [''# Sum''] @ [''```rust''] @ [''fn add(a: i32, b: i32) -> i32 { a + b }'']
         @ [''```''] @ ['''']
   \<and> \<not> fence_open ''# Sum''
   \<and> fence_open ''```rust''
   \<and> \<not> fence_open ''fn add(a: i32, b: i32) -> i32 { a + b }''
   \<and> \<not> fence_close ''fn add(a: i32, b: i32) -> i32 { a + b }''
   \<and> fence_close ''```''
   \<and> \<not> fence_open ''''
   \<and> ''fn add(a: i32, b: i32) -> i32 { a + b }'' =
       strip (join_nl [''fn add(a: i32, b: i32) -> i32 { a + b }''])
   \<and> 10 \<le> length ''fn add(a: i32, b: i32) -> i32 { a + b }''
   \<and> \<not> is_placeholder_snippet ''fn add(a: i32, b: i32) -> i32 { a + b }''
   \<and> length (struct_matches ''fn add(a: i32, b: i32) -> i32 { a + b }'') \<le> 1
   \<and> write_error (fresh_world ''doc.md'' doc_add) (snippet_file ''out'' ''doc'' 1) = None
   \<and> write_error (fresh_world ''doc.md'' doc_add) (count_file ''out'' ''doc'') = None
   \<and> stdout_error (fresh_world ''doc.md'' doc_add) = None
   \<and> \<not> flush_error (fresh_world ''doc.md'' doc_add)
   \<and> main [''extract_rust_snippets.py'', ''doc.md'', ''out'', ''doc'']
         (fresh_world ''doc.md'' doc_add) =
       (0, (fresh_world ''doc.md'' doc_add)
             \<lparr>written := [(''out/doc_snippet_1.rs'', ''fn add(a: i32, b: i32) -> i32 { a + b }''),
                          (''out/count_doc.txt'', ''1'')],
               stdout := [''Extracted 1 snippets from doc.md'']\<rparr>)"
proof -
  let ?w = "fresh_world ''doc.md'' doc_add"
  let ?code = "''fn add(a: i32, b: i32) -> i32 { a + b }''"
  have h1: "read_text ?w ''doc.md'' = Inr doc_add"
    by (simp add: fresh_world_def)
  have h2: "split_nl doc_add = [''# Sum''] @ [''```rust''] @ [?code] @ [''```''] @ ['''']"
    by (simp add: doc_add_def nl_def)
  have h3: "\<forall>l \<in> set [''# Sum'']. \<not> fence_open l"
    by (simp add: fence_open_def eval_text)
  have h4: "fence_open ''```rust''"
    by (simp add: fence_open_def eval_text)
  have h5: "\<forall>l \<in> set [?code]. \<not> fence_open l \<and> \<not> fence_close l"
    by (simp add: fence_open_def fence_close_def eval_text)
  have h6: "fence_close ''```''"
    by (simp add: fence_close_def eval_text)
  have h7: "\<forall>l \<in> set ['''']. \<not> fence_open l"
    by (simp add: fence_open_def eval_text)
  have h8: "?code = strip (join_nl [?code])"
    by (simp add: eval_text)
  have h9: "10 \<le> length ?code"
    by simp
  have h10: "\<not> is_placeholder_snippet ?code"
    by (simp add: eval_text eval_rx eval_scan)
  have h11: "length (struct_matches ?code) \<le> 1"
    by (simp add: eval_text eval_rx eval_scan)
  have h12: "write_error ?w (snippet_file ''out'' ''doc'' 1) = None"
    by (simp add: fresh_world_def)
  have h13: "write_error ?w (count_file ''out'' ''doc'') = None"
    by (simp add: fresh_world_def)
  have h14: "stdout_error ?w = None"
    by (simp add: fresh_world_def)
  have h15: "\<not> flush_error ?w"
    by (simp add: fresh_world_def)
  have "written (snd (main [''extract_rust_snippets.py'', ''doc.md'', ''out'', ''doc''] ?w)) =
        written ?w @ [(snippet_file ''out'' ''doc'' 1, ?code), (count_file ''out'' ''doc'', ''1'')]
      \<and> (stdout_error ?w = None \<and> \<not> flush_error ?w \<longrightarrow>
          main [''extract_rust_snippets.py'', ''doc.md'', ''out'', ''doc''] ?w =
            (0, ?w\<lparr>written := written ?w @ [(snippet_file ''out'' ''doc'' 1, ?code),
                                              (count_file ''out'' ''doc'', ''1'')],
                    stdout := stdout ?w @ [''Extracted 1 snippets from '' @ ''doc.md'']\<rparr>))"
    by (rule one_block_one_file [OF h1 h2 h3 h4 h5 h6 h7 h8 h9 h10 h11 h12 h13])
  with h14 h15 have "main [''extract_rust_snippets.py'', ''doc.md'', ''out'', ''doc''] ?w =
      (0, ?w\<lparr>written := written ?w @ [(snippet_file ''out'' ''doc'' 1, ?code),
                                        (count_file ''out'' ''doc'', ''1'')],
              stdout := stdout ?w @ [''Extracted 1 snippets from '' @ ''doc.md'']\<rparr>)"
    by blast
  then have "main [''extract_rust_snippets.py'', ''doc.md'', ''out'', ''doc''] ?w =
      (0, ?w\<lparr>written := [(''out/doc_snippet_1.rs'', ?code), (''out/count_doc.txt'', ''1'')],
              stdout := [''Extracted 1 snippets from doc.md'']\<rparr>)"
    by (simp add: fresh_world_def snippet_file_def count_file_def eval_text)
  with h1 h2 h3 h4 h5 h6 h7 h8 h9 h10 h11 h12 h13 h14 h15 show ?thesis
    by simp
qed

section \<open>Exit code and streams\<close>





section \<open>Properties of the matcher\<close>

text \<open>Every candidate is a prefix of the text.\<close>

lemma rx_try_prefix: "t \<in> set (rx_try p bol s) \<Longrightarrow> take (length t) s = t"
  by (induction p bol s arbitrary: t rule: rx_try.induct) (auto split: if_splits)

lemma rx_try_decomp: "t \<in> set (rx_try p bol s) \<Longrightarrow> s = t @ drop (length t) s"
  by (metis append_take_drop_id rx_try_prefix)

text \<open>
  A pattern in two parts: the candidates of the first part, in order, each continued by
  the candidates of the second part at the position it reaches.
\<close>

lemma bol_after_Nil [simp]: "bol_after bol [] = bol"
  by (simp add: bol_after_def)

lemma bol_after_Cons [simp]: "bol_after bol (c # t) = bol_after (c = nl) t"
  by (simp add: bol_after_def)

lemma append_Cons_fun: "(@) (c # x) = (\<lambda>y. c # (x @ y))"
  by auto

lemma rx_try_append:
  "rx_try (p @ q) bol s =
     concat (map (\<lambda>t. map ((@) t) (rx_try q (bol_after bol t) (drop (length t) s)))
               (rx_try p bol s))"
proof (induction p bol s rule: rx_try.induct)
  case (1 bol s)
  have "map ((@) []) (rx_try q bol s) = rx_try q bol s"
    by (induction "rx_try q bol s") simp_all
  then show ?case by simp
next
  case (2 k p bol)
  show ?case by simp
next
  case (3 k p bol c cs)
  then show ?case
    by (simp add: map_concat comp_def append_Cons_fun)
next
  case (4 p bol s)
  then show ?case by simp
next
  case (5 p bol)
  then show ?case by simp
next
  case (6 p bol c cs)
  then show ?case by simp
next
  case (7 k p bol)
  then show ?case by simp
next
  case (8 k p bol c cs)
  then show ?case
    by (simp add: map_concat comp_def append_Cons_fun)
next
  case (9 k p bol)
  then show ?case by simp
next
  case (10 k p bol c cs)
  then show ?case
    by (simp add: map_concat comp_def append_Cons_fun)
qed

lemma concat_map_first:
  "concat (map f xs) = g # rest \<Longrightarrow> \<exists>x \<in> set xs. \<exists>ys. f x = g # ys"
proof (induction xs)
  case Nil
  then show ?case by simp
next
  case (Cons x xs)
  then show ?case
    by (cases "f x") auto
qed

lemma rx_try_append_first:
  assumes "rx_try (p @ q) bol s = g # rest"
  shows "\<exists>h y ys. h \<in> set (rx_try p bol s)
           \<and> rx_try q (bol_after bol h) (drop (length h) s) = y # ys \<and> g = h @ y"
proof -
  from assms concat_map_first [of "\<lambda>t. map ((@) t) (rx_try q (bol_after bol t) (drop (length t) s))"
      "rx_try p bol s" g rest]
  obtain h zs where "h \<in> set (rx_try p bol s)"
    and "map ((@) h) (rx_try q (bol_after bol h) (drop (length h) s)) = g # zs"
    by (auto simp: rx_try_append)
  then show ?thesis
    by (cases "rx_try q (bol_after bol h) (drop (length h) s)") auto
qed

text \<open>The lazy \<open>.*?\<close> before a literal character stops at its first occurrence.\<close>

lemma rx_try_lazy_until:
  "rx_try [LazyStar Any, Chr (Lit c)] bol s = y # ys \<Longrightarrow>
   y = takeWhile (\<lambda>x. x \<noteq> c) s @ [c]"
proof (induction s arbitrary: bol y ys)
  case Nil
  then show ?case by simp
next
  case (Cons a s)
  show ?case
  proof (cases "a = c")
    case True
    with Cons.prems show ?thesis by simp
  next
    case False
    with Cons.prems obtain y' ys' where
      "rx_try [LazyStar Any, Chr (Lit c)] (a = nl) s = y' # ys'" and "y = a # y'"
      by (cases "rx_try [LazyStar Any, Chr (Lit c)] (a = nl) s") auto
    with Cons.IH False show ?thesis
      by simp
  qed
qed

text \<open>A candidate that ends where a line ends is still one when more lines follow.\<close>

lemma rx_try_extend:
  "t \<in> set (rx_try p bol s) \<Longrightarrow> length t = length s \<Longrightarrow> r = [] \<or> hd r = nl \<Longrightarrow>
   t \<in> set (rx_try p bol (s @ r))"
proof (induction p bol s arbitrary: t rule: rx_try.induct)
  case (1 bol s)
  then show ?case by simp
next
  case (2 k p bol)
  then show ?case by simp
next
  case (3 k p bol c cs)
  then show ?case by (auto split: if_splits)
next
  case (4 p bol s)
  then show ?case by (auto split: if_splits)
next
  case (5 p bol)
  from 5 have "t \<in> set (rx_try p bol ([] @ r))"
    by simp
  with 5(4) show ?case
    by (cases r) auto
next
  case (6 p bol c cs)
  then show ?case by (auto split: if_splits)
next
  case (7 k p bol)
  from 7 have "t \<in> set (rx_try p bol ([] @ r))"
    by simp
  then show ?case
    by (cases r) auto
next
  case (8 k p bol c cs)
  then show ?case by (auto split: if_splits)
next
  case (9 k p bol)
  from 9 have "t \<in> set (rx_try p bol ([] @ r))"
    by simp
  then show ?case
    by (cases r) auto
next
  case (10 k p bol c cs)
  then show ?case by (auto split: if_splits)
qed

text \<open>A candidate is a candidate of itself: the matcher looks no further than one
  character past what it takes, and only to see whether the line ends.\<close>

lemma rx_try_self:
  "t \<in> set (rx_try p bol s) \<Longrightarrow> t \<in> set (rx_try p bol t)"
proof (induction p bol s arbitrary: t rule: rx_try.induct)
  case (5 p bol)
  then have "t \<in> set (rx_try p bol [])"
    by simp
  from rx_try_length [OF this] have "t = []"
    by simp
  with 5 show ?case
    by simp
next
  case (7 k p bol)
  then have "t \<in> set (rx_try p bol [])"
    by simp
  from rx_try_length [OF this] have "t = []"
    by simp
  with 7 show ?case
    by simp
next
  case (9 k p bol)
  then have "t \<in> set (rx_try p bol [])"
    by simp
  from rx_try_length [OF this] have "t = []"
    by simp
  with 9 show ?case
    by simp
next
  case (6 p bol c cs)
  then have c: "c = nl" and t: "t \<in> set (rx_try p bol (c # cs))"
    by (auto split: if_splits)
  from 6 c t have self: "t \<in> set (rx_try p bol t)"
    by simp
  show ?case
  proof (cases t)
    case Nil
    with self show ?thesis by simp
  next
    case (Cons a t')
    with rx_try_prefix [OF t] have "a = c"
      by simp
    with self c Cons show ?thesis
      by simp
  qed
next
  case (8 k p bol c cs)
  show ?case
  proof (cases "t \<in> set (rx_try p bol (c # cs))")
    case True
    with 8 have self: "t \<in> set (rx_try p bol t)"
      by simp
    show ?thesis
    proof (cases t)
      case Nil
      with self show ?thesis by simp
    next
      case (Cons a t')
      with self show ?thesis by simp
    qed
  next
    case False
    with 8 show ?thesis
      by (auto split: if_splits)
  qed
next
  case (10 k p bol c cs)
  show ?case
  proof (cases "t \<in> set (rx_try p bol (c # cs))")
    case True
    with 10 have self: "t \<in> set (rx_try p bol t)"
      by simp
    show ?thesis
    proof (cases t)
      case Nil
      with self show ?thesis by simp
    next
      case (Cons a t')
      with self show ?thesis by simp
    qed
  next
    case False
    with 10 show ?thesis
      by (auto split: if_splits)
  qed
qed (auto split: if_splits)

text \<open>A pattern that ends with \<open>$\<close> stops where a line ends.\<close>

lemma rx_try_eol:
  assumes "t \<in> set (rx_try (q @ [Eol]) bol s)"
  shows "drop (length t) s = [] \<or> hd (drop (length t) s) = nl"
proof -
  from assms obtain h where "h \<in> set (rx_try q bol s)"
    and "t \<in> (@) h ` set (rx_try [Eol] (bol_after bol h) (drop (length h) s))"
    by (auto simp: rx_try_append)
  then show ?thesis
    by (cases "drop (length h) s") (auto split: if_splits)
qed

section \<open>The placeholder filter\<close>

lemma strip_strip [simp]: "strip (strip s) = strip s"
proof -
  let ?a = "dropWhile isspace s"
  let ?b = "dropWhile isspace (rev ?a)"
  have a: "?a = rev ?b @ rev (takeWhile isspace (rev ?a))"
    by (metis rev_append rev_rev_ident takeWhile_dropWhile_id)
  have "dropWhile isspace (rev ?b) = rev ?b"
  proof (cases "rev ?b")
    case Nil
    show ?thesis unfolding Nil by simp
  next
    case (Cons x xs)
    with a have "?a \<noteq> []" and "hd ?a = x"
      by (metis append_is_Nil_conv list.distinct(1), metis hd_append2 list.sel(1) list.distinct(1))
    then have "\<not> isspace x"
      using hd_dropWhile by blast
    with Cons show ?thesis by simp
  qed
  then show ?thesis
    by (simp add: strip_def)
qed

text \<open>
  \<open>marker_text t\<close>: the text \<open>t\<close>, as a whole, matches one of the four patterns.
  \<open>stub_marker_line l\<close>: \<open>l\<close> is one line and it is such a text.
\<close>

definition marker_text :: "string \<Rightarrow> bool" where
  "marker_text t = list_ex (\<lambda>p. t \<in> set (rx_try p True t)) placeholder_patterns"

definition stub_marker_line :: "string \<Rightarrow> bool" where
  "stub_marker_line l = (nl \<notin> set l \<and> marker_text l)"

lemma placeholder_patterns_eol:
  "p \<in> set placeholder_patterns \<Longrightarrow> p = butlast p @ [Eol]"
  by (auto simp: placeholder_patterns_def ilit_def plus_def)

text \<open>
  The pattern test of the filter: some pattern matches at the start of the text exactly
  when an initial part of the text that ends where a line ends is a marker text.
\<close>

lemma pattern_test_iff:
  "list_ex (\<lambda>p. re_match p s) placeholder_patterns \<longleftrightarrow>
   (\<exists>t r. s = t @ r \<and> (r = [] \<or> hd r = nl) \<and> marker_text t)"
proof
  assume "list_ex (\<lambda>p. re_match p s) placeholder_patterns"
  then obtain p where p: "p \<in> set placeholder_patterns" and "rx_try p True s \<noteq> []"
    by (auto simp: list_ex_iff re_match_def)
  then obtain t where t: "t \<in> set (rx_try p True s)"
    by (cases "rx_try p True s") auto
  from placeholder_patterns_eol [OF p] t have "t \<in> set (rx_try (butlast p @ [Eol]) True s)"
    by simp
  from rx_try_eol [OF this] have "drop (length t) s = [] \<or> hd (drop (length t) s) = nl" .
  moreover from rx_try_decomp [OF t] have "s = t @ drop (length t) s" .
  moreover from rx_try_self [OF t] p have "marker_text t"
    by (auto simp: marker_text_def list_ex_iff)
  ultimately show "\<exists>t r. s = t @ r \<and> (r = [] \<or> hd r = nl) \<and> marker_text t"
    by blast
next
  assume "\<exists>t r. s = t @ r \<and> (r = [] \<or> hd r = nl) \<and> marker_text t"
  then obtain t r p where s: "s = t @ r" and r: "r = [] \<or> hd r = nl"
    and p: "p \<in> set placeholder_patterns" and t: "t \<in> set (rx_try p True t)"
    by (auto simp: marker_text_def list_ex_iff)
  from rx_try_extend [OF t _ r] s have "t \<in> set (rx_try p True s)"
    by simp
  then have "rx_try p True s \<noteq> []"
    by (cases "rx_try p True s") simp_all
  with p show "list_ex (\<lambda>p. re_match p s) placeholder_patterns"
    by (auto simp: list_ex_iff re_match_def)
qed

text \<open>
  C10. When the first line of the stripped snippet is a stub-marker line, the filter
  calls the snippet a placeholder, whatever follows that line; the closing fence then
  emits no snippet for the block.
\<close>

theorem first_line_marker_discards:
  assumes "in_rust_block st" and "fence_close line"
    and "strip (join_nl (current_snippet st)) = l @ r"
    and "r = [] \<or> hd r = nl"
    and "stub_marker_line l"
  shows "is_placeholder_snippet (join_nl (current_snippet st))
         \<and> is_placeholder_snippet (strip (join_nl (current_snippet st)))
         \<and> snippets (scan_line st line) = snippets st"
proof -
  let ?code = "strip (join_nl (current_snippet st))"
  from assms(3,4,5) have "list_ex (\<lambda>p. re_match p ?code) placeholder_patterns"
    unfolding pattern_test_iff stub_marker_line_def by blast
  then have "is_placeholder_snippet (join_nl (current_snippet st))"
    and ph: "is_placeholder_snippet ?code"
    by (simp_all add: is_placeholder_snippet_def)
  moreover from ph assms(1,2) fence_close_not_open [OF assms(2)]
  have "snippets (scan_line st line) = snippets st"
    by (simp add: scan_line_def Let_def)
  ultimately show ?thesis
    by simp
qed

theorem first_line_marker_discards_witness:
  "in_rust_block \<lparr>in_rust_block = True,
       current_snippet = [''// Your code here'', ''fn main() { real(); }''], snippets = []\<rparr>
   \<and> fence_close ''```''
   \<and> strip (join_nl [''// Your code here'', ''fn main() { real(); }'']) =
       ''// Your code here'' @ ''\<newline>fn main() { real(); }''
   \<and> hd ''\<newline>fn main() { real(); }'' = nl
   \<and> stub_marker_line ''// Your code here''
   \<and> is_placeholder_snippet (join_nl [''// Your code here'', ''fn main() { real(); }''])
   \<and> snippets (scan_line \<lparr>in_rust_block = True,
         current_snippet = [''// Your code here'', ''fn main() { real(); }''], snippets = []\<rparr>
         ''```'') = []"
proof -
  let ?st = "\<lparr>in_rust_block = True,
       current_snippet = [''// Your code here'', ''fn main() { real(); }''], snippets = []\<rparr>"
  have a: "in_rust_block ?st"
    by simp
  have b: "fence_close ''```''"
    by (simp add: fence_close_def eval_text)
  have c: "strip (join_nl (current_snippet ?st)) =
      ''// Your code here'' @ ''\<newline>fn main() { real(); }''"
    by (simp add: eval_text)
  have d: "''\<newline>fn main() { real(); }'' = [] \<or> hd ''\<newline>fn main() { real(); }'' = nl"
    by (simp add: nl_def)
  have e: "stub_marker_line ''// Your code here''"
    by (simp add: stub_marker_line_def marker_text_def placeholder_patterns_def eval_text eval_rx)
  have "is_placeholder_snippet (join_nl (current_snippet ?st))
      \<and> is_placeholder_snippet (strip (join_nl (current_snippet ?st)))
      \<and> snippets (scan_line ?st ''```'') = snippets ?st"
    by (rule first_line_marker_discards [OF a b c d e])
  then have "is_placeholder_snippet (join_nl [''// Your code here'', ''fn main() { real(); }''])"
    and "snippets (scan_line ?st ''```'') = []"
    by simp_all
  with a b c d e show ?thesis
    by simp
qed

subsection \<open>Letter case\<close>

lemma lower_cases:
  "lower c = c \<or>
   (c, lower c) \<in> set (zip ''ABCDEFGHIJKLMNOPQRSTUVWXYZ'' ''abcdefghijklmnopqrstuvwxyz'')"
  by (auto simp: lower_def split: option.splits dest: map_of_SomeD)

lemma lower_lower [simp]: "lower (lower c) = lower c"
  using lower_cases [of c] by (elim disjE) (auto simp: lower_def)

lemma isspace_lower [simp]: "isspace (lower c) = isspace c"
  using lower_cases [of c] by (elim disjE) (auto simp: isspace_def)

lemma lower_eq_nl [simp]: "(lower c = nl) = (c = nl)"
  using lower_cases [of c] by (elim disjE) (auto simp: nl_def lower_def)

text \<open>The items whose matching does not depend on the case of the letters.\<close>

fun ci_cls :: "cls \<Rightarrow> bool" where
  "ci_cls (ILit a) = True"
| "ci_cls Space = True"
| "ci_cls Any = True"
| "ci_cls k = False"

fun ci_rx :: "rx \<Rightarrow> bool" where
  "ci_rx (Chr k) = ci_cls k"
| "ci_rx (Star k) = ci_cls k"
| "ci_rx (LazyStar k) = ci_cls k"
| "ci_rx Bol = True"
| "ci_rx Eol = True"

lemma cls_ok_lower: "ci_cls k \<Longrightarrow> cls_ok k (lower c) = cls_ok k c"
  by (cases k) simp_all

lemma rx_try_lower:
  "list_all ci_rx p \<Longrightarrow> rx_try p bol (map lower s) = map (map lower) (rx_try p bol s)"
  by (induction p bol s rule: rx_try.induct) (simp_all add: cls_ok_lower comp_def)

lemma strip_lower: "strip (map lower s) = map lower (strip s)"
proof -
  have dw: "dropWhile isspace (map lower xs) = map lower (dropWhile isspace xs)" for xs
    by (simp add: dropWhile_map comp_def)
  show ?thesis
    by (simp add: strip_def dw rev_map)
qed

lemma placeholder_patterns_ci: "list_all (list_all ci_rx) placeholder_patterns"
  by (simp add: placeholder_patterns_def ilit_def plus_def)

lemma is_placeholder_lower: "is_placeholder_snippet (map lower code) = is_placeholder_snippet code"
proof -
  have "re_match p (map lower s) = re_match p s" if "p \<in> set placeholder_patterns" for p s
    using that placeholder_patterns_ci
    by (simp add: re_match_def rx_try_lower list_all_iff)
  then have "list_ex (\<lambda>p. re_match p (map lower s)) placeholder_patterns =
      list_ex (\<lambda>p. re_match p s) placeholder_patterns" for s
    by (simp add: list_ex_iff)
  then show ?thesis
    by (simp add: is_placeholder_snippet_def strip_lower Let_def)
qed

subsection \<open>Where a marker discards a snippet\<close>

text \<open>
  C4, as claimed: a snippet is discarded when any line of its stripped text is a
  stub-marker line. The filter calls \<open>re.match\<close>, which matches at the start of the
  text only: a snippet of 27 characters whose second line is \<open>// ...\<close> is kept.
\<close>

theorem marker_on_any_line_counterexample:
  "stub_marker_line ''// ...''
   \<and> ''// ...'' \<in> set (split_nl (strip ''fn main() { real(); }\<newline>// ...''))
   \<and> \<not> is_placeholder_snippet ''fn main() { real(); }\<newline>// ...''"
  by (simp add: stub_marker_line_def marker_text_def eval_scan eval_text eval_rx)

text \<open>
  C4, amended. The filter discards a snippet exactly when its stripped text has fewer
  than 10 characters, or starts with a text that matches one of the four patterns and
  ends where a line ends: the match starts at the first character of the stripped text
  (a marker on the first line discards the snippet, a marker on a later line does not by
  itself). The verdict does not depend on the case of the letters. The four markers
  \<open>// Your code here\<close>, \<open>// ...\<close>, \<open># ...\<close> and \<open>...\<close> are stub-marker lines.
\<close>

theorem placeholder_filter_anchored:
  "(is_placeholder_snippet code \<longleftrightarrow>
      (\<exists>t r. strip code = t @ r \<and> (r = [] \<or> hd r = nl) \<and> marker_text t)
      \<or> length (strip code) < 10)
   \<and> (map lower code' = map lower code \<longrightarrow>
        is_placeholder_snippet code' = is_placeholder_snippet code)
   \<and> stub_marker_line ''// Your code here'' \<and> stub_marker_line ''// ...''
   \<and> stub_marker_line ''# ...'' \<and> stub_marker_line ''...''"
proof (intro conjI impI)
  show "is_placeholder_snippet code \<longleftrightarrow>
      (\<exists>t r. strip code = t @ r \<and> (r = [] \<or> hd r = nl) \<and> marker_text t)
      \<or> length (strip code) < 10"
    using pattern_test_iff [of "strip code"]
    by (simp add: is_placeholder_snippet_def Let_def)
next
  assume "map lower code' = map lower code"
  then show "is_placeholder_snippet code' = is_placeholder_snippet code"
    by (metis is_placeholder_lower)
next
  show "stub_marker_line ''// Your code here''"
    by (simp add: stub_marker_line_def marker_text_def placeholder_patterns_def eval_text eval_rx)
next
  show "stub_marker_line ''// ...''"
    by (simp add: stub_marker_line_def marker_text_def placeholder_patterns_def eval_text eval_rx)
next
  show "stub_marker_line ''# ...''"
    by (simp add: stub_marker_line_def marker_text_def placeholder_patterns_def eval_text eval_rx)
next
  show "stub_marker_line ''...''"
    by (simp add: stub_marker_line_def marker_text_def placeholder_patterns_def eval_text eval_rx)
qed

theorem placeholder_filter_anchored_witness:
  "map lower ''// YOUR Code Here\<newline>fn main() { real(); }'' =
     map lower ''// your code here\<newline>fn main() { real(); }''
   \<and> is_placeholder_snippet ''// your code here\<newline>fn main() { real(); }''
   \<and> is_placeholder_snippet ''// YOUR Code Here\<newline>fn main() { real(); }''"
proof -
  let ?a = "''// YOUR Code Here\<newline>fn main() { real(); }''"
  let ?b = "''// your code here\<newline>fn main() { real(); }''"
  have same: "map lower ?a = map lower ?b"
    by (simp add: lower_def)
  have b: "is_placeholder_snippet ?b"
    by (simp add: eval_scan eval_text eval_rx)
  from placeholder_filter_anchored [of ?b ?a] same have
    "is_placeholder_snippet ?a = is_placeholder_snippet ?b"
    by blast
  with same b show ?thesis
    by simp
qed

section \<open>Properties of \<open>finditer\<close>\<close>

text \<open>
  \<open>at_bol T i\<close>: position \<open>i\<close> of the text \<open>T\<close> starts a line.
  \<open>ordered_from pos ms\<close>: the matches \<open>ms\<close> come one after the other, none before
  \<open>pos\<close>, none starting before the one before it ends.
\<close>

definition at_bol :: "string \<Rightarrow> nat \<Rightarrow> bool" where
  "at_bol T i = (i = 0 \<or> T ! (i - 1) = nl)"

fun ordered_from :: "nat \<Rightarrow> rmatch list \<Rightarrow> bool" where
  "ordered_from pos [] = True"
| "ordered_from pos (m # ms) = (pos \<le> m_start m \<and> ordered_from (m_end m) ms)"

text \<open>\<open>first_try p T m\<close>: the match \<open>m\<close> is the first candidate the matcher has at
  the position where \<open>m\<close> starts in \<open>T\<close> (the first non-empty one, after an empty match).\<close>

definition first_try :: "rx list \<Rightarrow> string \<Rightarrow> rmatch \<Rightarrow> bool" where
  "first_try p T m =
     (\<exists>adv ts. filter (\<lambda>t. \<not> adv \<or> t \<noteq> [])
                 (rx_try p (at_bol T (m_start m)) (drop (m_start m) T)) = m_group m # ts)"

lemma ordered_from_mono: "ordered_from a ms \<Longrightarrow> b \<le> a \<Longrightarrow> ordered_from b ms"
  by (cases ms) simp_all

lemma at_bol_step:
  assumes "drop pos T = c # cs"
  shows "(c = nl) = at_bol T (pos + 1)"
proof -
  from assms have "pos < length T"
    by (metis drop_all leI list.distinct(1))
  then have "hd (drop pos T) = T ! pos"
    by (rule hd_drop_conv_nth)
  with assms show ?thesis
    by (simp add: at_bol_def)
qed

lemma at_bol_after:
  assumes "take (length t) (drop pos T) = t"
  shows "bol_after (at_bol T pos) t = at_bol T (pos + length t)"
proof (cases "t = []")
  case True
  then show ?thesis by simp
next
  case False
  then have pos: "0 < length t"
    by simp
  from assms have "length (take (length t) (drop pos T)) = length t"
    by simp
  then have "length t \<le> length (drop pos T)"
    by simp
  with pos have in_range: "pos + (length t - 1) < length T"
    by (simp del: length_greater_0_conv)
  from assms pos have "last t = take (length t) (drop pos T) ! (length t - 1)"
    by (simp add: last_conv_nth False)
  also from pos have "\<dots> = drop pos T ! (length t - 1)"
    by simp
  also from in_range have "\<dots> = T ! (pos + (length t - 1))"
    by simp
  finally have "last t = T ! (pos + length t - 1)"
    using pos by simp
  with False pos show ?thesis
    by (simp add: bol_after_def at_bol_def)
qed

lemma finditer_Nil:
  "filter (\<lambda>t. \<not> adv \<or> t \<noteq> []) (rx_try p bol []) = [] \<Longrightarrow> finditer p adv pos bol [] = []"
  by (simp add: finditer.simps)

lemma finditer_skip:
  "filter (\<lambda>t. \<not> adv \<or> t \<noteq> []) (rx_try p bol (c # cs)) = [] \<Longrightarrow>
   finditer p adv pos bol (c # cs) = finditer p False (pos + 1) (c = nl) cs"
  by (simp add: finditer.simps [of p adv pos bol "c # cs"])

lemma finditer_match:
  "filter (\<lambda>t. \<not> adv \<or> t \<noteq> []) (rx_try p bol s) = t # ts \<Longrightarrow>
   finditer p adv pos bol s =
     \<lparr>m_start = pos, m_group = t\<rparr>
       # finditer p (t = []) (pos + length t) (bol_after bol t) (drop (length t) s)"
  by (simp add: finditer.simps [of p adv pos bol s])

lemma finditer_sound:
  "s = drop pos T \<Longrightarrow> bol = at_bol T pos \<Longrightarrow> pos \<le> length T \<Longrightarrow>
   ordered_from pos (finditer p adv pos bol s)
   \<and> (\<forall>m \<in> set (finditer p adv pos bol s). m_end m \<le> length T \<and> first_try p T m)"
proof (induction p adv pos bol s rule: finditer.induct)
  case (1 p adv pos bol s)
  show ?case
  proof (cases "filter (\<lambda>t. \<not> adv \<or> t \<noteq> []) (rx_try p bol s)")
    case none: Nil
    show ?thesis
    proof (cases s)
      case Nil
      with none show ?thesis
        by (simp add: finditer_Nil)
    next
      case (Cons c cs)
      with 1(3) have d: "drop pos T = c # cs"
        by simp
      then have "cs = drop (pos + 1) T"
        by (metis drop_Suc tl_drop list.sel(3) Suc_eq_plus1)
      moreover from at_bol_step [OF d] have "(c = nl) = at_bol T (pos + 1)" .
      moreover from d have "pos + 1 \<le> length T"
        by (metis Suc_eq_plus1 Suc_leI drop_all leI list.distinct(1))
      ultimately have
        "ordered_from (pos + 1) (finditer p False (pos + 1) (c = nl) cs)
         \<and> (\<forall>m \<in> set (finditer p False (pos + 1) (c = nl) cs).
               m_end m \<le> length T \<and> first_try p T m)"
        using 1(1) [OF none Cons] by simp
      moreover from this have "ordered_from pos (finditer p False (pos + 1) (c = nl) cs)"
        by (auto intro: ordered_from_mono)
      ultimately show ?thesis
        using none Cons by (simp add: finditer_skip)
    qed
  next
    case some: (Cons t ts)
    from rx_try_first [OF some] have len: "length t \<le> length s"
      by simp
    from filter_first [OF some] have "t \<in> set (rx_try p bol s)"
      by simp
    from rx_try_prefix [OF this] 1(3) have pre: "take (length t) (drop pos T) = t"
      by simp
    let ?rest = "finditer p (t = []) (pos + length t) (bol_after bol t) (drop (length t) s)"
    have "drop (length t) s = drop (pos + length t) T"
      using 1(3) by (simp add: add.commute)
    moreover have "bol_after bol t = at_bol T (pos + length t)"
      using at_bol_after [OF pre] 1(4) by simp
    moreover from len 1(3,5) have end_ok: "pos + length t \<le> length T"
      by simp
    ultimately have rest: "ordered_from (pos + length t) ?rest
         \<and> (\<forall>m \<in> set ?rest. m_end m \<le> length T \<and> first_try p T m)"
      using 1(2) [OF some] by simp
    note end_ok
    moreover from some 1(3,4) have "first_try p T \<lparr>m_start = pos, m_group = t\<rparr>"
      by (auto simp: first_try_def)
    ultimately show ?thesis
      using rest by (simp add: finditer_match [OF some] m_end_def)
  qed
qed

lemma ordered_from_lower:
  "ordered_from pos ms \<Longrightarrow> m \<in> set ms \<Longrightarrow> pos \<le> m_start m"
proof (induction ms arbitrary: pos)
  case Nil
  then show ?case by simp
next
  case (Cons a ms)
  show ?case
  proof (cases "m = a")
    case True
    with Cons.prems show ?thesis by simp
  next
    case False
    with Cons.prems have "m \<in> set ms" and "ordered_from (m_end a) ms"
      by simp_all
    from Cons.IH [OF this(2,1)] have "m_end a \<le> m_start m" .
    moreover from Cons.prems have "pos \<le> m_end a"
      by (simp add: m_end_def)
    ultimately show ?thesis by simp
  qed
qed

lemma ordered_from_nth:
  "ordered_from pos ms \<Longrightarrow> i < j \<Longrightarrow> j < length ms \<Longrightarrow> m_end (ms ! i) \<le> m_start (ms ! j)"
proof (induction ms arbitrary: pos i j)
  case Nil
  then show ?case by simp
next
  case (Cons a ms)
  from Cons.prems obtain j' where j: "j = Suc j'" and j': "j' < length ms"
    by (cases j) auto
  from Cons.prems have ord: "ordered_from (m_end a) ms"
    by simp
  show ?case
  proof (cases i)
    case 0
    from j' have "ms ! j' \<in> set ms"
      by simp
    from ordered_from_lower [OF ord this] 0 j show ?thesis
      by simp
  next
    case (Suc i')
    with Cons.prems j have "i' < j'"
      by simp
    from Cons.IH [OF ord this j'] Suc j show ?thesis
      by simp
  qed
qed

section \<open>The struct pattern\<close>

lemma struct_pattern_nonempty: "t \<in> set (rx_try struct_pattern bol s) \<Longrightarrow> t \<noteq> []"
  by (cases s) (auto simp: struct_pattern_def struct_head_def lit_def split: if_splits)

lemma struct_head_bol:
  "h \<in> set (rx_try struct_head bol s) \<Longrightarrow> bol \<and> h \<in> set (rx_try struct_head True s)"
  by (cases s) (auto simp: struct_head_def lit_def split: if_splits)

lemma rx_try_lit_prefix: "t \<in> set (rx_try (lit w @ q) bol s) \<Longrightarrow> take (length w) t = w"
proof (induction w arbitrary: t bol s)
  case Nil
  then show ?case by (simp add: lit_def)
next
  case (Cons c w)
  from Cons.prems obtain s' t' where "s = c # s'" and "t = c # t'"
    and "t' \<in> set (rx_try (lit w @ q) (c = nl) s')"
    by (cases s) (auto simp: lit_def split: if_splits)
  with Cons.IH [of t' "c = nl" s'] show ?case
    by simp
qed

lemma rx_try_lit_last:
  assumes "t \<in> set (rx_try (q @ lit [c]) bol s)"
  shows "t \<noteq> [] \<and> last t = c"
proof -
  from assms obtain h y where "t = h @ y"
    and "y \<in> set (rx_try (lit [c]) (bol_after bol h) (drop (length h) s))"
    by (auto simp: rx_try_append)
  then show ?thesis
    by (cases "drop (length h) s") (auto simp: lit_def split: if_splits)
qed

lemma struct_head_shape:
  assumes "h \<in> set (rx_try struct_head bol s)"
  shows "take 8 h = ''#[derive'' \<and> last h = CHR ''{''"
proof -
  from assms have h: "h \<in> set (rx_try struct_head True s)"
    by (simp add: struct_head_bol)
  from h have "h \<in> set (rx_try (lit ''#[derive'' @
      ([LazyStar Any] @ lit '']'' @ [Star Space, Chr (Lit nl)]
        @ lit ''struct'' @ plus Space @ plus Word @ [Star Space] @ lit ''{'')) True s)"
    by (simp add: struct_head_def)
  from rx_try_lit_prefix [OF this] have "take 8 h = ''#[derive''"
    by (simp add: eval_nat_numeral)
  moreover have "struct_head = ([Bol] @ lit ''#[derive'' @ [LazyStar Any] @ lit '']''
        @ [Star Space, Chr (Lit nl)] @ lit ''struct'' @ plus Space @ plus Word @ [Star Space])
        @ lit ''{''"
    by (simp add: struct_head_def)
  with h rx_try_lit_last have "last h = CHR ''{''"
    by metis
  ultimately show ?thesis
    by simp
qed

text \<open>What \<open>finditer\<close> guarantees for the struct pattern.\<close>

lemma struct_matches_sound:
  "ordered_from 0 (struct_matches snippet)
   \<and> (\<forall>m \<in> set (struct_matches snippet).
         m_end m \<le> length snippet \<and> first_try struct_pattern snippet m)"
  using finditer_sound [of snippet 0 snippet True struct_pattern False]
  by (simp add: struct_matches_def at_bol_def)

lemma struct_match_first:
  assumes "m \<in> set (struct_matches snippet)"
  shows "\<exists>ts. rx_try struct_pattern (at_bol snippet (m_start m)) (drop (m_start m) snippet) =
           m_group m # ts"
proof -
  let ?xs = "rx_try struct_pattern (at_bol snippet (m_start m)) (drop (m_start m) snippet)"
  from assms struct_matches_sound [of snippet] have "first_try struct_pattern snippet m"
    by blast
  then obtain adv ts where "filter (\<lambda>t. \<not> adv \<or> t \<noteq> []) ?xs = m_group m # ts"
    unfolding first_try_def by blast
  moreover have "filter (\<lambda>t. \<not> adv \<or> t \<noteq> []) ?xs = ?xs"
    by (rule filter_True) (auto dest: struct_pattern_nonempty)
  ultimately have "?xs = m_group m # ts"
    by simp
  then show ?thesis
    by blast
qed

lemma struct_match_text:
  assumes "m \<in> set (struct_matches snippet)"
  shows "m_group m \<noteq> [] \<and> take (length (m_group m)) (drop (m_start m) snippet) = m_group m"
proof -
  from struct_match_first [OF assms] obtain ts where
    "rx_try struct_pattern (at_bol snippet (m_start m)) (drop (m_start m) snippet) = m_group m # ts"
    by blast
  then have "m_group m \<in> set (rx_try struct_pattern (at_bol snippet (m_start m))
      (drop (m_start m) snippet))"
    by simp
  then show ?thesis
    by (simp add: rx_try_prefix struct_pattern_nonempty)
qed

section \<open>The struct splitter\<close>

text \<open>
  C7, as claimed: the body of a match extends as far as possible. Both \<open>.*\<close> of the
  pattern are written \<open>.*?\<close>: the engine tries the shortest body first. In a snippet
  with two derive-annotated structs, the whole snippet is a candidate at position 0
  (annotation, then a body that runs to the last brace), and the matches are the two
  structs, the first one ending at the first closing brace.
\<close>

theorem greedy_body_counterexample:
  "''#[derive(Debug)]\<newline>struct A { a: u8 }\<newline>#[derive(Debug)]\<newline>struct B { b: u8 }''
     \<in> set (rx_try struct_pattern True
         ''#[derive(Debug)]\<newline>struct A { a: u8 }\<newline>#[derive(Debug)]\<newline>struct B { b: u8 }'')
   \<and> struct_matches
         ''#[derive(Debug)]\<newline>struct A { a: u8 }\<newline>#[derive(Debug)]\<newline>struct B { b: u8 }'' =
       [\<lparr>m_start = 0, m_group = ''#[derive(Debug)]\<newline>struct A { a: u8 }''\<rparr>,
        \<lparr>m_start = 36, m_group = ''#[derive(Debug)]\<newline>struct B { b: u8 }''\<rparr>]"
  by (simp add: eval_text eval_rx eval_scan)

text \<open>
  C7, amended. The matches of the struct pattern in a snippet do not overlap and come
  from left to right. Each lies within the snippet and starts at the start of a line. It
  consists of a head \<open>h\<close> (the annotation line from \<open>#[derive\<close> on, and the struct
  line up to its opening brace, matched as one text that spans lines) followed by the
  body, which is lazy: it runs to the first closing brace after the head and no further.
\<close>

theorem struct_matches_lazy:
  "(\<forall>i j. i < j \<and> j < length (struct_matches snippet) \<longrightarrow>
       m_end (struct_matches snippet ! i) \<le> m_start (struct_matches snippet ! j))
   \<and> (\<forall>m \<in> set (struct_matches snippet).
         m_end m \<le> length snippet
         \<and> at_bol snippet (m_start m)
         \<and> take (length (m_group m)) (drop (m_start m) snippet) = m_group m
         \<and> (\<exists>h. h \<in> set (rx_try struct_head True (drop (m_start m) snippet))
                \<and> take 8 h = ''#[derive'' \<and> last h = CHR ''{''
                \<and> m_group m =
                    h @ takeWhile (\<lambda>c. c \<noteq> CHR ''}'') (drop (m_start m + length h) snippet)
                      @ ''}''))"
proof (intro conjI allI impI ballI)
  fix i j
  assume "i < j \<and> j < length (struct_matches snippet)"
  with struct_matches_sound [of snippet] ordered_from_nth
  show "m_end (struct_matches snippet ! i) \<le> m_start (struct_matches snippet ! j)"
    by blast
next
  fix m
  assume m: "m \<in> set (struct_matches snippet)"
  with struct_matches_sound [of snippet] show "m_end m \<le> length snippet"
    by blast
  from struct_match_text [OF m]
  show "take (length (m_group m)) (drop (m_start m) snippet) = m_group m"
    by simp
  let ?b = "at_bol snippet (m_start m)"
  let ?s = "drop (m_start m) snippet"
  from struct_match_first [OF m] obtain ts where
    "rx_try (struct_head @ struct_body) ?b ?s = m_group m # ts"
    by (auto simp: struct_pattern_def)
  from rx_try_append_first [OF this] obtain h y ys where
    h: "h \<in> set (rx_try struct_head ?b ?s)"
    and y: "rx_try struct_body (bol_after ?b h) (drop (length h) ?s) = y # ys"
    and g: "m_group m = h @ y"
    by blast
  from struct_head_bol [OF h] show "?b"
    by simp
  from y have "rx_try [LazyStar Any, Chr (Lit CHR ''}'')] (bol_after ?b h) (drop (length h) ?s)
      = y # ys"
    by (simp add: struct_body_def lit_def)
  from rx_try_lazy_until [OF this]
  have "y = takeWhile (\<lambda>c. c \<noteq> CHR ''}'') (drop (m_start m + length h) snippet) @ ''}''"
    by (simp add: add.commute)
  with g struct_head_bol [OF h] struct_head_shape [OF h]
  show "\<exists>h. h \<in> set (rx_try struct_head True (drop (m_start m) snippet))
          \<and> take 8 h = ''#[derive'' \<and> last h = CHR ''{''
          \<and> m_group m =
              h @ takeWhile (\<lambda>c. c \<noteq> CHR ''}'') (drop (m_start m + length h) snippet) @ ''}''"
    by blast
qed

theorem struct_matches_lazy_witness:
  "struct_matches
       ''#[derive(Debug)]\<newline>struct A { a: u8 }\<newline>#[derive(Debug)]\<newline>struct B { b: u8 }'' =
     [\<lparr>m_start = 0, m_group = ''#[derive(Debug)]\<newline>struct A { a: u8 }''\<rparr>,
      \<lparr>m_start = 36, m_group = ''#[derive(Debug)]\<newline>struct B { b: u8 }''\<rparr>]
   \<and> m_end \<lparr>m_start = 0, m_group = ''#[derive(Debug)]\<newline>struct A { a: u8 }''\<rparr>
       \<le> m_start \<lparr>m_start = 36, m_group = ''#[derive(Debug)]\<newline>struct B { b: u8 }''\<rparr>
   \<and> at_bol ''#[derive(Debug)]\<newline>struct A { a: u8 }\<newline>#[derive(Debug)]\<newline>struct B { b: u8 }'' 36
   \<and> (\<exists>h. h \<in> set (rx_try struct_head True (drop 36
           ''#[derive(Debug)]\<newline>struct A { a: u8 }\<newline>#[derive(Debug)]\<newline>struct B { b: u8 }''))
          \<and> take 8 h = ''#[derive'' \<and> last h = CHR ''{''
          \<and> ''#[derive(Debug)]\<newline>struct B { b: u8 }'' =
              h @ takeWhile (\<lambda>c. c \<noteq> CHR ''}'') (drop (36 + length h)
                ''#[derive(Debug)]\<newline>struct A { a: u8 }\<newline>#[derive(Debug)]\<newline>struct B { b: u8 }'')
                @ ''}'')"
proof -
  let ?T = "''#[derive(Debug)]\<newline>struct A { a: u8 }\<newline>#[derive(Debug)]\<newline>struct B { b: u8 }''"
  let ?M1 = "\<lparr>m_start = 0, m_group = ''#[derive(Debug)]\<newline>struct A { a: u8 }''\<rparr>"
  let ?M2 = "\<lparr>m_start = 36, m_group = ''#[derive(Debug)]\<newline>struct B { b: u8 }''\<rparr>"
  have ms: "struct_matches ?T = [?M1, ?M2]"
    by (simp add: eval_text eval_rx eval_scan)
  have ord: "\<forall>i j. i < j \<and> j < length (struct_matches ?T) \<longrightarrow>
       m_end (struct_matches ?T ! i) \<le> m_start (struct_matches ?T ! j)"
    by (rule struct_matches_lazy [of ?T, THEN conjunct1])
  have each: "\<forall>m \<in> set (struct_matches ?T).
         m_end m \<le> length ?T
         \<and> at_bol ?T (m_start m)
         \<and> take (length (m_group m)) (drop (m_start m) ?T) = m_group m
         \<and> (\<exists>h. h \<in> set (rx_try struct_head True (drop (m_start m) ?T))
                \<and> take 8 h = ''#[derive'' \<and> last h = CHR ''{''
                \<and> m_group m =
                    h @ takeWhile (\<lambda>c. c \<noteq> CHR ''}'') (drop (m_start m + length h) ?T) @ ''}'')"
    by (rule struct_matches_lazy [of ?T, THEN conjunct2])
  from ord [rule_format, of 0 1] have a: "m_end ?M1 \<le> m_start ?M2"
    unfolding ms by simp
  from each have "at_bol ?T (m_start ?M2)
      \<and> (\<exists>h. h \<in> set (rx_try struct_head True (drop (m_start ?M2) ?T))
             \<and> take 8 h = ''#[derive'' \<and> last h = CHR ''{''
             \<and> m_group ?M2 =
                 h @ takeWhile (\<lambda>c. c \<noteq> CHR ''}'') (drop (m_start ?M2 + length h) ?T) @ ''}'')"
    unfolding ms by simp
  then have b: "at_bol ?T 36"
    and c: "\<exists>h. h \<in> set (rx_try struct_head True (drop 36 ?T))
          \<and> take 8 h = ''#[derive'' \<and> last h = CHR ''{''
          \<and> ''#[derive(Debug)]\<newline>struct B { b: u8 }'' =
              h @ takeWhile (\<lambda>c. c \<noteq> CHR ''}'') (drop (36 + length h) ?T) @ ''}''"
    by simp_all
  from ms a b c show ?thesis
    by (intro conjI)
qed

lemma unit_files_from:
  "unit_files td sn n us = map (\<lambda>j. (snippet_file td sn (n + j + 1), us ! j)) [0..<length us]"
  by (rule nth_equalityI) (simp_all add: unit_files_nth)

lemma unit_files_paths_from:
  "map fst (unit_files td sn n us) = map (\<lambda>j. snippet_file td sn (n + j + 1)) [0..<length us]"
  by (simp add: unit_files_from comp_def)

lemma struct_match_not_whole:
  assumes "2 \<le> length (struct_matches snippet)" and "j < length (struct_matches snippet)"
  shows "m_group (struct_matches snippet ! j) \<noteq> snippet"
proof
  let ?ms = "struct_matches snippet"
  assume whole: "m_group (?ms ! j) = snippet"
  from struct_matches_sound [of snippet] have ord: "ordered_from 0 ?ms"
    and inside: "\<And>m. m \<in> set ?ms \<Longrightarrow> m_end m \<le> length snippet"
    by blast+
  from assms(2) inside [of "?ms ! j"] whole have j0: "m_start (?ms ! j) = 0"
    and jend: "m_end (?ms ! j) = length snippet"
    by (simp_all add: m_end_def)
  define k :: nat where "k = (if j = 0 then 1 else 0)"
  with assms(1) have k: "k < length ?ms" and kj: "k \<noteq> j"
    by (auto split: if_splits)
  from k have kin: "?ms ! k \<in> set ?ms"
    by simp
  from struct_match_text [OF kin] have nonempty: "0 < length (m_group (?ms ! k))"
    by simp
  show False
  proof (cases "k < j")
    case True
    from ordered_from_nth [OF ord True assms(2)] j0 nonempty show False
      by (simp add: m_end_def)
  next
    case False
    with kj have "j < k"
      by simp
    from ordered_from_nth [OF ord this k] jend inside [OF kin] nonempty show False
      by (simp add: m_end_def)
  qed
qed

text \<open>
  C6. For a snippet with two or more matches of the struct pattern, the body of the
  loop writes one file per match and nothing else (when those files can be written):
  match number \<open>j\<close>, counted from 0, goes to the snippet file \<open>snippet_count + j + 1\<close>
  and the file holds exactly the matched text, the part of the snippet where the match
  lies. The matches are numbered in the order of their positions in the snippet. No file
  holds the whole snippet: every matched text differs from it.
\<close>

theorem split_into_struct_files:
  assumes "ms = struct_matches snippet"
    and "2 \<le> length ms"
    and "writable w (map (\<lambda>j. snippet_file td sn (n + j + 1)) [0..<length ms])"
  shows "write_snippet td sn snippet n w =
           Inr (n + length ms,
                w\<lparr>written := written w @
                     map (\<lambda>j. (snippet_file td sn (n + j + 1), m_group (ms ! j))) [0..<length ms]\<rparr>)
         \<and> (\<forall>j < length ms.
               take (length (m_group (ms ! j))) (drop (m_start (ms ! j)) snippet) = m_group (ms ! j)
               \<and> m_group (ms ! j) \<noteq> snippet)
         \<and> (\<forall>i j. i < j \<and> j < length ms \<longrightarrow> m_end (ms ! i) \<le> m_start (ms ! j))"
proof (intro conjI allI impI)
  from assms(1,2) have units: "units_of snippet = map m_group ms"
    by (simp add: units_of_def Let_def)
  with assms(3) have "writable w (map fst (unit_files td sn n (units_of snippet)))"
    by (simp add: unit_files_paths_from)
  from write_snippet_ok [OF this] units
  show "write_snippet td sn snippet n w =
           Inr (n + length ms,
                w\<lparr>written := written w @
                     map (\<lambda>j. (snippet_file td sn (n + j + 1), m_group (ms ! j))) [0..<length ms]\<rparr>)"
    by (simp add: unit_files_from)
next
  fix j
  assume j: "j < length ms"
  with assms(1) have "ms ! j \<in> set (struct_matches snippet)"
    by simp
  from struct_match_text [OF this]
  show "take (length (m_group (ms ! j))) (drop (m_start (ms ! j)) snippet) = m_group (ms ! j)"
    by simp
  from struct_match_not_whole [of snippet j] assms(1,2) j
  show "m_group (ms ! j) \<noteq> snippet"
    by simp
next
  fix i j
  assume "i < j \<and> j < length ms"
  with struct_matches_sound [of snippet] ordered_from_nth assms(1)
  show "m_end (ms ! i) \<le> m_start (ms ! j)"
    by blast
qed

theorem split_into_struct_files_witness:
  "[\<lparr>m_start = 0, m_group = ''#[derive(Debug)]\<newline>struct A { a: u8 }''\<rparr>,
    \<lparr>m_start = 36, m_group = ''#[derive(Debug)]\<newline>struct B { b: u8 }''\<rparr>] =
     struct_matches
       ''#[derive(Debug)]\<newline>struct A { a: u8 }\<newline>#[derive(Debug)]\<newline>struct B { b: u8 }''
   \<and> writable (fresh_world ''doc.md'' doc_add) [''out/doc_snippet_2.rs'', ''out/doc_snippet_3.rs'']
   \<and> write_snippet ''out'' ''doc''
         ''#[derive(Debug)]\<newline>struct A { a: u8 }\<newline>#[derive(Debug)]\<newline>struct B { b: u8 }''
         1 (fresh_world ''doc.md'' doc_add) =
       Inr (3, (fresh_world ''doc.md'' doc_add)
                 \<lparr>written := [(''out/doc_snippet_2.rs'', ''#[derive(Debug)]\<newline>struct A { a: u8 }''),
                              (''out/doc_snippet_3.rs'', ''#[derive(Debug)]\<newline>struct B { b: u8 }'')]\<rparr>)"
proof -
  let ?T = "''#[derive(Debug)]\<newline>struct A { a: u8 }\<newline>#[derive(Debug)]\<newline>struct B { b: u8 }''"
  let ?ms = "[\<lparr>m_start = 0, m_group = ''#[derive(Debug)]\<newline>struct A { a: u8 }''\<rparr>,
    \<lparr>m_start = 36, m_group = ''#[derive(Debug)]\<newline>struct B { b: u8 }''\<rparr>]"
  let ?w = "fresh_world ''doc.md'' doc_add"
  have ms: "?ms = struct_matches ?T"
    by (simp add: eval_text eval_rx eval_scan)
  have two: "2 \<le> length ?ms"
    by simp
  have paths: "map (\<lambda>j. snippet_file ''out'' ''doc'' (1 + j + 1)) [0..<length ?ms] =
      [''out/doc_snippet_2.rs'', ''out/doc_snippet_3.rs'']"
    by (simp add: snippet_file_def eval_text upt_rec)
  have wr: "writable ?w (map (\<lambda>j. snippet_file ''out'' ''doc'' (1 + j + 1)) [0..<length ?ms])"
    unfolding paths by (simp add: writable_def fresh_world_def)
  have "write_snippet ''out'' ''doc'' ?T 1 ?w =
      Inr (1 + length ?ms,
           ?w\<lparr>written := written ?w @
                map (\<lambda>j. (snippet_file ''out'' ''doc'' (1 + j + 1), m_group (?ms ! j)))
                  [0..<length ?ms]\<rparr>)"
    by (rule split_into_struct_files [OF ms two wr, THEN conjunct1])
  then have run: "write_snippet ''out'' ''doc'' ?T 1 ?w =
      Inr (3, ?w\<lparr>written := [(''out/doc_snippet_2.rs'', ''#[derive(Debug)]\<newline>struct A { a: u8 }''),
                              (''out/doc_snippet_3.rs'', ''#[derive(Debug)]\<newline>struct B { b: u8 }'')]\<rparr>)"
    by (simp add: snippet_file_def eval_text upt_rec fresh_world_def)
  from wr have "writable ?w [''out/doc_snippet_2.rs'', ''out/doc_snippet_3.rs'']"
    unfolding paths .
  with ms run show ?thesis
    by (intro conjI)
qed

end
